theory Spec2Isabelle
  imports Complex_Main "HOL-Library.Log_Nat"
begin

section \<open>The HPMS process scheduler (hpms\_scheduler.c)\<close>

text \<open>
  A shallow embedding of the scheduling engine: the four algorithms
  \<^verbatim>\<open>priority_scheduling\<close>, \<^verbatim>\<open>fcfs_scheduling\<close>, \<^verbatim>\<open>sjf_scheduling\<close>,
  \<^verbatim>\<open>round_robin_scheduling\<close> and \<^verbatim>\<open>calculate_metrics\<close>.

  Conventions of the model.
  \<^item> A C \<^verbatim>\<open>int\<close> has 32 bits. The clock, the timing fields of a job and the sum of the
    burst times are computed with \<open>int32\<close>, the two's complement wrap-around: signed
    overflow is undefined in C, and wrapping is what the compiled program does. The
    counters (\<^verbatim>\<open>completed\<close>, \<^verbatim>\<open>context_switches\<close>, \<^verbatim>\<open>event_count\<close>, \<^verbatim>\<open>front\<close>, \<^verbatim>\<open>rear\<close>, the
    loop indices) count events that the fixed arrays bound by 200 at most, and
    \<^verbatim>\<open>remaining_time\<close> is only ever lowered towards 0: their arithmetic is exact.
  \<^item> A C \<^verbatim>\<open>float\<close> is a real number that IEEE 754 single precision represents, and every
    conversion and operation rounds its exact result with \<open>fl\<close> (to nearest, ties to
    even, 24 significant bits). No value of the program leaves the normal range.
  \<^item> A \<^verbatim>\<open>while\<close> loop that may run forever is a partial function into \<open>option\<close>:
    \<open>None\<close> means that the loop never exits.
  \<^item> A write past the end of a fixed-size array is undefined behaviour in C. The model
    stops there with \<open>Inl Array_Overrun\<close>. This is not an error the program reports: no
    function of the source returns an error, and nothing in the source checks a bound.
\<close>

subsection \<open>Machine arithmetic\<close>

abbreviation (input) INT_MAX :: int where "INT_MAX \<equiv> 2147483647"
abbreviation (input) INT_MIN :: int where "INT_MIN \<equiv> - 2147483648"

text \<open>The value that an \<^verbatim>\<open>int\<close> holds after an operation whose exact result is \<open>x\<close>.\<close>

definition int32 :: "int \<Rightarrow> int" where
  "int32 x = (x + 2147483648) mod 4294967296 - 2147483648"

text \<open>
  The exponent \<open>e\<close> of a real number other than 0: \<open>2 ^ e \<le> \<bar>x\<bar> < 2 ^ (e + 1)\<close>. It is read
  off the number of bits of the integer part of \<open>\<bar>x\<bar>\<close>, or of \<open>1 / \<bar>x\<bar>\<close> when \<open>\<bar>x\<bar> < 1\<close>.
\<close>

definition float_exponent :: "real \<Rightarrow> int" where
  "float_exponent x =
     (if 1 \<le> \<bar>x\<bar> then bitlen \<lfloor>\<bar>x\<bar>\<rfloor> - 1 else - bitlen (\<lceil>1 / \<bar>x\<bar>\<rceil> - 1))"

text \<open>Rounding to the nearest integer, a tie to the even one.\<close>

definition round_even :: "real \<Rightarrow> int" where
  "round_even r =
     (if r - of_int \<lfloor>r\<rfloor> < 1 / 2 \<or> (r - of_int \<lfloor>r\<rfloor> = 1 / 2 \<and> even \<lfloor>r\<rfloor>)
      then \<lfloor>r\<rfloor> else \<lfloor>r\<rfloor> + 1)"

text \<open>
  The \<^verbatim>\<open>float\<close> nearest to \<open>x\<close>: \<open>x\<close> is rounded to a multiple of \<open>2 ^ (e - 23)\<close>, the unit
  in the last of the 24 places of its significand.
\<close>

definition fl :: "real \<Rightarrow> real" where
  "fl x =
     (if x = 0 then 0
      else of_int (round_even (x / 2 powi (float_exponent x - 23)))
             * 2 powi (float_exponent x - 23))"

subsection \<open>Data model\<close>

abbreviation (input) MAX_PROCESSES :: nat where "MAX_PROCESSES \<equiv> 20"
abbreviation (input) TIME_QUANTUM :: int where "TIME_QUANTUM \<equiv> 4"

text \<open>The capacity of the local array \<^verbatim>\<open>int events[200][3]\<close> of \<^verbatim>\<open>priority_scheduling\<close>.\<close>

abbreviation (input) MAX_EVENTS :: nat where "MAX_EVENTS \<equiv> 200"

record Process =
  pid :: int
  name :: string
  medical_class :: string
  priority :: int
  arrival_time :: int
  burst_time :: int
  remaining_time :: int
  completion_time :: int
  turnaround_time :: int
  waiting_time :: int
  response_time :: int
  start_time :: int

record Metrics =
  avg_response_time :: real
  avg_turnaround_time :: real
  avg_waiting_time :: real
  emergency_response_min :: real
  emergency_response_max :: real
  cpu_utilization :: real
  context_switches :: int
  throughput :: real
  total_time :: int

datatype fault = Array_Overrun

text \<open>
  Every scenario of the source builds its jobs with the same initialiser
  \<^verbatim>\<open>(Process){pid, name, class, priority, arrival, burst, burst, 0, 0, 0, -1, -1}\<close>.
\<close>

definition new_process :: "int \<Rightarrow> string \<Rightarrow> string \<Rightarrow> int \<Rightarrow> int \<Rightarrow> int \<Rightarrow> Process" where
  "new_process i nm cls prio arrival burst =
     \<lparr>pid = i, name = nm, medical_class = cls, priority = prio,
      arrival_time = arrival, burst_time = burst, remaining_time = burst,
      completion_time = 0, turnaround_time = 0, waiting_time = 0,
      response_time = -1, start_time = -1\<rparr>"

definition init_emergency_scenario :: "Process list" where
  "init_emergency_scenario =
    [new_process 0 ''Background Report'' ''Routine Documentation'' 5 0 30,
     new_process 1 ''EMERGENCY #1'' ''Critical - Trauma'' 1 5 3,
     new_process 2 ''EMERGENCY #2'' ''Critical - Cardiac'' 1 7 3,
     new_process 3 ''EMERGENCY #3'' ''Critical - Respiratory'' 1 9 3,
     new_process 4 ''EMERGENCY #4'' ''Critical - Hemorrhage'' 1 11 3,
     new_process 5 ''EMERGENCY #5'' ''Critical - Head Injury'' 1 13 3,
     new_process 6 ''EMERGENCY #6'' ''Critical - Multi-trauma'' 1 15 3,
     new_process 7 ''Lab Processing'' ''Urgent - Lab Results'' 2 8 10,
     new_process 8 ''Check-in'' ''Standard Registration'' 3 12 4,
     new_process 9 ''Admin Task'' ''Non-critical Admin'' 4 15 8,
     new_process 10 ''Lab Processing #2'' ''Urgent - Lab Results'' 2 18 9,
     new_process 11 ''Database Backup'' ''Background Maintenance'' 5 20 25]"

definition init_normal_scenario :: "Process list" where
  "init_normal_scenario =
    [new_process 0 ''Report Generation'' ''Routine'' 5 0 20,
     new_process 1 ''Check-in #1'' ''Standard'' 3 3 4,
     new_process 2 ''Lab Processing #1'' ''Urgent'' 2 6 8,
     new_process 3 ''Check-in #2'' ''Standard'' 3 10 4,
     new_process 4 ''EMERGENCY Patient'' ''Critical'' 1 12 2,
     new_process 5 ''Lab Processing #2'' ''Urgent'' 2 15 7,
     new_process 6 ''Admin Task'' ''Routine'' 4 18 6,
     new_process 7 ''Check-in #3'' ''Standard'' 3 22 4]"

definition init_best_scenario :: "Process list" where
  "init_best_scenario =
    [new_process 0 ''Routine Check-in'' ''Standard'' 3 0 5,
     new_process 1 ''Lab Result Processing'' ''Urgent'' 2 8 10,
     new_process 2 ''Admin Task'' ''Routine'' 4 15 8,
     new_process 3 ''Emergency Patient'' ''Critical'' 1 20 3,
     new_process 4 ''Report Generation'' ''Background'' 5 25 12]"

text \<open>
  Each algorithm begins with \<^verbatim>\<open>Process temp[MAX_PROCESSES]; for (i < n) temp[i] = proc[i];\<close>.
  The registry is the list of the \<open>n\<close> entries of \<^verbatim>\<open>proc\<close>; with more than
  \<^verbatim>\<open>MAX_PROCESSES\<close> entries the copy writes \<^verbatim>\<open>temp[20]\<close>.
\<close>

definition copy_in :: "Process list \<Rightarrow> fault + Process list" where
  "copy_in proc = (if length proc \<le> MAX_PROCESSES then Inr proc else Inl Array_Overrun)"

subsection \<open>calculate\_metrics\<close>

text \<open>
  The local variables of the summing loop of \<^verbatim>\<open>calculate_metrics\<close>. The sums and the two
  extrema are \<^verbatim>\<open>float\<close>s, the two counts are \<^verbatim>\<open>int\<close>s.
\<close>

record msums =
  sum_response :: real
  sum_turnaround :: real
  sum_waiting :: real
  n_completed :: int
  total_burst :: int
  em_min :: real
  em_max :: real

text \<open>
  One iteration of the loop. An \<^verbatim>\<open>int\<close> that meets a \<^verbatim>\<open>float\<close> in a sum, a comparison or an
  assignment is converted first: \<open>fl (of_int i)\<close>.
\<close>

definition metrics_body :: "Process \<Rightarrow> msums \<Rightarrow> msums" where
  "metrics_body p a =
     (if completion_time p > 0 then
        (let a1 = a\<lparr>sum_response := fl (sum_response a + fl (of_int (response_time p))),
                     sum_turnaround := fl (sum_turnaround a + fl (of_int (turnaround_time p))),
                     sum_waiting := fl (sum_waiting a + fl (of_int (waiting_time p))),
                     total_burst := int32 (total_burst a + burst_time p),
                     n_completed := n_completed a + 1\<rparr>
         in if priority p = 1 then
              (let a2 = (if fl (of_int (response_time p)) < em_min a1
                         then a1\<lparr>em_min := fl (of_int (response_time p))\<rparr> else a1)
               in if fl (of_int (response_time p)) > em_max a2
                  then a2\<lparr>em_max := fl (of_int (response_time p))\<rparr> else a2)
            else a1)
      else a)"

fun metrics_loop :: "Process list \<Rightarrow> msums \<Rightarrow> msums" where
  "metrics_loop [] a = a"
| "metrics_loop (p # ps) a = metrics_loop ps (metrics_body p a)"

definition calculate_metrics :: "Process list \<Rightarrow> int \<Rightarrow> Metrics" where
  "calculate_metrics proc tt =
     (let a = metrics_loop proc
                \<lparr>sum_response = 0, sum_turnaround = 0, sum_waiting = 0,
                 n_completed = 0, total_burst = 0, em_min = 999, em_max = 0\<rparr>
      in \<lparr>avg_response_time =
            (if n_completed a > 0
             then fl (sum_response a / fl (of_int (n_completed a))) else 0),
          avg_turnaround_time =
            (if n_completed a > 0
             then fl (sum_turnaround a / fl (of_int (n_completed a))) else 0),
          avg_waiting_time =
            (if n_completed a > 0
             then fl (sum_waiting a / fl (of_int (n_completed a))) else 0),
          emergency_response_min = (if em_min a = 999 then 0 else em_min a),
          emergency_response_max = em_max a,
          cpu_utilization =
            (if tt > 0
             then fl (fl (fl (of_int (total_burst a)) / fl (of_int tt)) * 100) else 0),
          context_switches = 0,
          throughput =
            (if tt > 0 then fl (fl (of_int (n_completed a)) / fl (of_int tt)) else 0),
          total_time = tt\<rparr>)"

subsection \<open>fcfs\_scheduling\<close>

text \<open>One iteration of the \<^verbatim>\<open>for\<close> loop, on the job \<open>p = temp[i]\<close> at clock \<open>t\<close>.\<close>

definition fcfs_body :: "int \<Rightarrow> Process \<Rightarrow> int \<times> Process" where
  "fcfs_body t p =
     (let t1 = (if t < arrival_time p then arrival_time p else t);
          t2 = int32 (t1 + burst_time p);
          ta = int32 (t2 - arrival_time p)
      in (t2, p\<lparr>start_time := t1,
                response_time := int32 (t1 - arrival_time p),
                completion_time := t2,
                turnaround_time := ta,
                waiting_time := int32 (ta - burst_time p),
                remaining_time := 0\<rparr>))"

text \<open>
  The loop: \<open>fcfs_loop t cs todo fin\<close> has the clock \<open>t\<close>, the count of context switches
  \<open>cs\<close>, the entries \<open>temp[i..n)\<close> still to run and the entries \<open>temp[0..i)\<close> already run.
\<close>

fun fcfs_loop :: "int \<Rightarrow> int \<Rightarrow> Process list \<Rightarrow> Process list \<Rightarrow> int \<times> int \<times> Process list" where
  "fcfs_loop t cs [] fin = (t, cs, fin)"
| "fcfs_loop t cs (p # ps) fin =
     (case fcfs_body t p of (t', p') \<Rightarrow> fcfs_loop t' (cs + 1) ps (fin @ [p']))"

definition fcfs_scheduling :: "Process list \<Rightarrow> fault + (Metrics \<times> Process list)" where
  "fcfs_scheduling proc =
     (case copy_in proc of
        Inl f \<Rightarrow> Inl f
      | Inr temp \<Rightarrow>
          (case fcfs_loop 0 0 temp [] of
             (t, cs, temp') \<Rightarrow>
               Inr ((calculate_metrics temp' t)\<lparr>context_switches := cs\<rparr>, temp')))"

subsection \<open>Local state of the tick-driven loops\<close>

text \<open>
  The local variables that the three \<^verbatim>\<open>while (completed < n)\<close> loops share:
  \<open>switches\<close> is the local \<^verbatim>\<open>context_switches\<close>, and \<open>n\<close> is \<open>length (temp s)\<close>.
  An index into \<^verbatim>\<open>temp\<close> is a C \<^verbatim>\<open>int\<close>, with \<open>-1\<close> for "none", as in the source.
\<close>

record sched =
  temp :: "Process list"
  current_time :: int
  completed :: int
  switches :: int

subsection \<open>priority\_scheduling\<close>

text \<open>The third column of \<^verbatim>\<open>events\<close>: 0 = start, 1 = preempt, 2 = complete.\<close>

datatype event_type = Start | Preempt | Complete

type_synonym event = "int \<times> int \<times> event_type"

record pstate = sched +
  is_running :: int
  events :: "event list"

text \<open>
  \<^verbatim>\<open>events[event_count] = e; event_count++;\<close> The list holds the rows written so far, so
  \<^verbatim>\<open>event_count\<close> is its length.
\<close>

definition record_event :: "event \<Rightarrow> event list \<Rightarrow> fault + event list" where
  "record_event e es = (if length es < MAX_EVENTS then Inr (es @ [e]) else Inl Array_Overrun)"

text \<open>
  The selection loop \<^verbatim>\<open>for (i = 0; i < n; i++)\<close> at clock \<open>t\<close>: the list is \<open>temp[i..n)\<close>,
  the pair is \<^verbatim>\<open>(next, highest_priority)\<close>.
\<close>

fun priority_scan :: "int \<Rightarrow> Process list \<Rightarrow> int \<Rightarrow> int \<times> int \<Rightarrow> int \<times> int" where
  "priority_scan t [] i (next, hp) = (next, hp)"
| "priority_scan t (p # ps) i (next, hp) =
     priority_scan t ps (i + 1)
       (if arrival_time p \<le> t \<and> remaining_time p > 0 \<and> priority p < hp
        then (i, priority p) else (next, hp))"

text \<open>The block \<^verbatim>\<open>if (is_running != next) { ... }\<close>.\<close>

definition dispatch :: "pstate \<Rightarrow> int \<Rightarrow> fault + pstate" where
  "dispatch s next =
     (let t = current_time s; r = is_running s in
      case (if r \<noteq> -1 \<and> remaining_time (temp s ! nat r) > 0
            then record_event (t, r, Preempt) (events s) else Inr (events s)) of
        Inl f \<Rightarrow> Inl f
      | Inr es1 \<Rightarrow>
          (let p = temp s ! nat next;
               tmp = (if start_time p = -1
                      then (temp s)[nat next := p\<lparr>start_time := t,
                                       response_time := int32 (t - arrival_time p)\<rparr>]
                      else temp s)
           in case record_event (t, next, Start) es1 of
                Inl f \<Rightarrow> Inl f
              | Inr es2 \<Rightarrow>
                  Inr (s\<lparr>temp := tmp, events := es2,
                         switches := switches s + 1, is_running := next\<rparr>)))"

text \<open>The block \<^verbatim>\<open>if (temp[next].remaining_time == 0) { ... }\<close>.\<close>

definition finish :: "pstate \<Rightarrow> int \<Rightarrow> fault + pstate" where
  "finish s next =
     (let t = current_time s; p = temp s ! nat next;
          ta = int32 (t - arrival_time p);
          tmp = (temp s)[nat next := p\<lparr>completion_time := t,
                                       turnaround_time := ta,
                                       waiting_time := int32 (ta - burst_time p)\<rparr>]
      in case record_event (t, next, Complete) (events s) of
           Inl f \<Rightarrow> Inl f
         | Inr es \<Rightarrow>
             Inr (s\<lparr>temp := tmp, events := es,
                    completed := completed s + 1, is_running := -1\<rparr>))"

text \<open>One iteration of \<^verbatim>\<open>while (completed < n)\<close>.\<close>

definition priority_body :: "pstate \<Rightarrow> fault + pstate" where
  "priority_body s =
     (case priority_scan (current_time s) (temp s) 0 (-1, 999) of
        (next, hp) \<Rightarrow>
          if next = -1 then Inr (s\<lparr>current_time := int32 (current_time s + 1)\<rparr>)
          else
            (case (if is_running s \<noteq> next then dispatch s next else Inr s) of
               Inl f \<Rightarrow> Inl f
             | Inr s1 \<Rightarrow>
                 (let p = temp s1 ! nat next;
                      s2 = s1\<lparr>temp := (temp s1)[nat next :=
                                         p\<lparr>remaining_time := remaining_time p - 1\<rparr>],
                              current_time := int32 (current_time s1 + 1)\<rparr>
                  in if remaining_time (temp s2 ! nat next) = 0
                     then finish s2 next else Inr s2)))"

partial_function (option) priority_loop :: "pstate \<Rightarrow> (fault + pstate) option" where
  "priority_loop s =
     (if completed s < int (length (temp s))
      then (case priority_body s of
              Inl f \<Rightarrow> Some (Inl f)
            | Inr s' \<Rightarrow> priority_loop s')
      else Some (Inr s))"

declare priority_loop.simps [code]

text \<open>
  The result is the returned \<^verbatim>\<open>Metrics\<close>, the job list copied back into \<^verbatim>\<open>proc\<close>, and the
  event rows. The parameter \<^verbatim>\<open>verbose\<close> only selects what is printed.
\<close>

definition priority_scheduling ::
  "Process list \<Rightarrow> (fault + (Metrics \<times> Process list \<times> event list)) option" where
  "priority_scheduling proc =
     (case copy_in proc of
        Inl f \<Rightarrow> Some (Inl f)
      | Inr tmp \<Rightarrow>
          (case priority_loop \<lparr>temp = tmp, current_time = 0, completed = 0, switches = 0,
                               is_running = -1, events = []\<rparr> of
             None \<Rightarrow> None
           | Some (Inl f) \<Rightarrow> Some (Inl f)
           | Some (Inr s) \<Rightarrow>
               Some (Inr ((calculate_metrics (temp s) (current_time s))
                            \<lparr>context_switches := switches s\<rparr>,
                          temp s, events s))))"

subsection \<open>sjf\_scheduling\<close>

record sstate = sched +
  is_completed :: "int list"

text \<open>The selection loop: the pair is \<^verbatim>\<open>(next, shortest)\<close>.\<close>

fun sjf_scan :: "int \<Rightarrow> int list \<Rightarrow> Process list \<Rightarrow> int \<Rightarrow> int \<times> int \<Rightarrow> int \<times> int" where
  "sjf_scan t isc [] i (next, shortest) = (next, shortest)"
| "sjf_scan t isc (p # ps) i (next, shortest) =
     sjf_scan t isc ps (i + 1)
       (if arrival_time p \<le> t \<and> isc ! nat i = 0 \<and> burst_time p < shortest
        then (i, burst_time p) else (next, shortest))"

definition sjf_body :: "sstate \<Rightarrow> sstate" where
  "sjf_body s =
     (case sjf_scan (current_time s) (is_completed s) (temp s) 0 (-1, 999999) of
        (next, shortest) \<Rightarrow>
          if next = -1 then s\<lparr>current_time := int32 (current_time s + 1)\<rparr>
          else
            (let p = temp s ! nat next;
                 t1 = current_time s;
                 t2 = int32 (t1 + burst_time p);
                 ta = int32 (t2 - arrival_time p)
             in s\<lparr>temp := (temp s)[nat next :=
                              p\<lparr>start_time := t1,
                                response_time := int32 (t1 - arrival_time p),
                                completion_time := t2,
                                turnaround_time := ta,
                                waiting_time := int32 (ta - burst_time p),
                                remaining_time := 0\<rparr>],
                  current_time := t2,
                  is_completed := (is_completed s)[nat next := 1],
                  completed := completed s + 1,
                  switches := switches s + 1\<rparr>))"

partial_function (option) sjf_loop :: "sstate \<Rightarrow> sstate option" where
  "sjf_loop s =
     (if completed s < int (length (temp s)) then sjf_loop (sjf_body s) else Some s)"

declare sjf_loop.simps [code]

definition sjf_scheduling :: "Process list \<Rightarrow> (fault + (Metrics \<times> Process list)) option" where
  "sjf_scheduling proc =
     (case copy_in proc of
        Inl f \<Rightarrow> Some (Inl f)
      | Inr tmp \<Rightarrow>
          (case sjf_loop \<lparr>temp = tmp, current_time = 0, completed = 0, switches = 0,
                          is_completed = replicate MAX_PROCESSES 0\<rparr> of
             None \<Rightarrow> None
           | Some s \<Rightarrow>
               Some (Inr ((calculate_metrics (temp s) (current_time s))
                            \<lparr>context_switches := switches s\<rparr>, temp s))))"

subsection \<open>round\_robin\_scheduling\<close>

text \<open>
  The ready queue \<^verbatim>\<open>int queue[MAX_PROCESSES]\<close> with its indices \<^verbatim>\<open>front\<close> and \<^verbatim>\<open>rear\<close>.
  The source only ever writes \<^verbatim>\<open>queue[rear++]\<close> and reads \<^verbatim>\<open>queue[front++]\<close> when
  \<^verbatim>\<open>front != rear\<close>, and never resets either index. So \<open>queue\<close> is the list of the cells
  \<^verbatim>\<open>queue[0..rear)\<close> written so far and \<^verbatim>\<open>rear\<close> is its length.
\<close>

record rstate = sched +
  queue :: "int list"
  front :: nat
  in_queue :: "int list"

text \<open>\<^verbatim>\<open>queue[rear++] = i; in_queue[i] = 1;\<close>\<close>

definition enqueue :: "int \<Rightarrow> int list \<times> int list \<Rightarrow> fault + (int list \<times> int list)" where
  "enqueue i qi =
     (case qi of (q, inq) \<Rightarrow>
        if length q < MAX_PROCESSES then Inr (q @ [i], inq[nat i := 1])
        else Inl Array_Overrun)"

text \<open>
  The three loops \<^verbatim>\<open>for (i = 0; i < n; i++) if (c) { queue[rear++] = i; in_queue[i] = 1; }\<close>
  differ in the condition \<open>c\<close> only, which reads \<open>i\<close>, \<^verbatim>\<open>temp[i]\<close> and \<^verbatim>\<open>in_queue\<close>.
\<close>

fun enqueue_where :: "(int \<Rightarrow> Process \<Rightarrow> int list \<Rightarrow> bool) \<Rightarrow> Process list \<Rightarrow> int \<Rightarrow>
    int list \<times> int list \<Rightarrow> fault + (int list \<times> int list)" where
  "enqueue_where c [] i qi = Inr qi"
| "enqueue_where c (p # ps) i qi =
     (if c i p (snd qi)
      then (case enqueue i qi of
              Inl f \<Rightarrow> Inl f
            | Inr qi' \<Rightarrow> enqueue_where c ps (i + 1) qi')
      else enqueue_where c ps (i + 1) qi)"

text \<open>The conditions of the loop before the \<^verbatim>\<open>while\<close>, of the idle branch, and of the loop after a run.\<close>

definition arrived_at_zero :: "int \<Rightarrow> Process \<Rightarrow> int list \<Rightarrow> bool" where
  "arrived_at_zero i p inq \<longleftrightarrow> arrival_time p = 0"

definition ready_idle :: "int \<Rightarrow> int \<Rightarrow> Process \<Rightarrow> int list \<Rightarrow> bool" where
  "ready_idle t i p inq \<longleftrightarrow> arrival_time p \<le> t \<and> remaining_time p > 0 \<and> inq ! nat i = 0"

definition ready_after :: "int \<Rightarrow> int \<Rightarrow> int \<Rightarrow> Process \<Rightarrow> int list \<Rightarrow> bool" where
  "ready_after t idx i p inq \<longleftrightarrow>
     arrival_time p \<le> t \<and> remaining_time p > 0 \<and> inq ! nat i = 0 \<and> i \<noteq> idx"

text \<open>The branch \<^verbatim>\<open>if (front == rear) { ...; continue; }\<close>.\<close>

definition rr_idle :: "rstate \<Rightarrow> fault + rstate" where
  "rr_idle s =
     (let t = int32 (current_time s + 1) in
      case enqueue_where (ready_idle t) (temp s) 0 (queue s, in_queue s) of
        Inl f \<Rightarrow> Inl f
      | Inr (q, inq) \<Rightarrow> Inr (s\<lparr>current_time := t, queue := q, in_queue := inq\<rparr>))"

text \<open>The rest of the loop body: dequeue, run for one quantum at most, enqueue, requeue or complete.\<close>

definition rr_run :: "rstate \<Rightarrow> fault + rstate" where
  "rr_run s =
     (let idx = queue s ! front s;
          inq0 = (in_queue s)[nat idx := 0];
          p0 = temp s ! nat idx;
          p1 = (if start_time p0 = -1
                then p0\<lparr>start_time := current_time s,
                        response_time := int32 (current_time s - arrival_time p0)\<rparr>
                else p0);
          exec_time = (if remaining_time p1 > TIME_QUANTUM
                       then TIME_QUANTUM else remaining_time p1);
          p2 = p1\<lparr>remaining_time := remaining_time p1 - exec_time\<rparr>;
          t = int32 (current_time s + exec_time);
          ta = int32 (t - arrival_time p2);
          tmp = (temp s)[nat idx := p2]
      in case enqueue_where (ready_after t idx) tmp 0 (queue s, inq0) of
           Inl f \<Rightarrow> Inl f
         | Inr (q, inq) \<Rightarrow>
             if remaining_time p2 = 0
             then Inr (s\<lparr>temp := tmp[nat idx :=
                                  p2\<lparr>completion_time := t,
                                     turnaround_time := ta,
                                     waiting_time := int32 (ta - burst_time p2)\<rparr>],
                         current_time := t, completed := completed s + 1,
                         switches := switches s + 1,
                         queue := q, front := front s + 1, in_queue := inq\<rparr>)
             else
               (case enqueue idx (q, inq) of
                  Inl f \<Rightarrow> Inl f
                | Inr (q', inq') \<Rightarrow>
                    Inr (s\<lparr>temp := tmp, current_time := t, switches := switches s + 1,
                           queue := q', front := front s + 1, in_queue := inq'\<rparr>)))"

definition rr_body :: "rstate \<Rightarrow> fault + rstate" where
  "rr_body s = (if front s = length (queue s) then rr_idle s else rr_run s)"

partial_function (option) rr_loop :: "rstate \<Rightarrow> (fault + rstate) option" where
  "rr_loop s =
     (if completed s < int (length (temp s))
      then (case rr_body s of
              Inl f \<Rightarrow> Some (Inl f)
            | Inr s' \<Rightarrow> rr_loop s')
      else Some (Inr s))"

declare rr_loop.simps [code]

text \<open>The state at the head of the \<^verbatim>\<open>while\<close> loop, after the jobs that arrive at 0 are enqueued.\<close>

definition rr_init :: "Process list \<Rightarrow> fault + rstate" where
  "rr_init tmp =
     (case enqueue_where arrived_at_zero tmp 0 ([], replicate MAX_PROCESSES 0) of
        Inl f \<Rightarrow> Inl f
      | Inr (q, inq) \<Rightarrow>
          Inr \<lparr>temp = tmp, current_time = 0, completed = 0, switches = 0,
               queue = q, front = 0, in_queue = inq\<rparr>)"

definition round_robin_scheduling ::
  "Process list \<Rightarrow> (fault + (Metrics \<times> Process list)) option" where
  "round_robin_scheduling proc =
     (case copy_in proc of
        Inl f \<Rightarrow> Some (Inl f)
      | Inr tmp \<Rightarrow>
          (case rr_init tmp of
             Inl f \<Rightarrow> Some (Inl f)
           | Inr s0 \<Rightarrow>
               (case rr_loop s0 of
                  None \<Rightarrow> None
                | Some (Inl f) \<Rightarrow> Some (Inl f)
                | Some (Inr s) \<Rightarrow>
                    Some (Inr ((calculate_metrics (temp s) (current_time s))
                                 \<lparr>context_switches := switches s\<rparr>, temp s)))))"

subsection \<open>run\_scenario\<close>

text \<open>
  \<^verbatim>\<open>run_scenario\<close> lets \<^verbatim>\<open>init_func\<close> fill \<^verbatim>\<open>Process processes[MAX_PROCESSES]\<close>, copies the
  \<open>n\<close> entries into \<^verbatim>\<open>p1\<close> .. \<^verbatim>\<open>p4\<close> and runs the four algorithms in turn, each on its
  own copy. Nothing between \<^verbatim>\<open>init_func\<close> and the calls looks at \<open>n\<close> or at a job's fields.
  The result is the four \<^verbatim>\<open>Metrics\<close> that it prints.
\<close>

definition run_scenario ::
  "Process list \<Rightarrow> (fault + (Metrics \<times> Metrics \<times> Metrics \<times> Metrics)) option" where
  "run_scenario init =
     (case copy_in init of
        Inl f \<Rightarrow> Some (Inl f)
      | Inr processes \<Rightarrow>
          (case priority_scheduling processes of
             None \<Rightarrow> None
           | Some (Inl f) \<Rightarrow> Some (Inl f)
           | Some (Inr (m1, p1, evs)) \<Rightarrow>
               (case fcfs_scheduling processes of
                  Inl f \<Rightarrow> Some (Inl f)
                | Inr (m2, p2) \<Rightarrow>
                    (case sjf_scheduling processes of
                       None \<Rightarrow> None
                     | Some (Inl f) \<Rightarrow> Some (Inl f)
                     | Some (Inr (m3, p3)) \<Rightarrow>
                         (case round_robin_scheduling processes of
                            None \<Rightarrow> None
                          | Some (Inl f) \<Rightarrow> Some (Inl f)
                          | Some (Inr (m4, p4)) \<Rightarrow> Some (Inr (m1, m2, m3, m4)))))))"

subsection \<open>Registries and the properties of jobs\<close>

text \<open>A job as the scenarios build it: the computed fields still hold their initial values.\<close>

definition initialised :: "Process \<Rightarrow> bool" where
  "initialised p \<longleftrightarrow>
     p = new_process (pid p) (name p) (medical_class p) (priority p)
           (arrival_time p) (burst_time p)"

definition valid_job :: "Process \<Rightarrow> bool" where
  "valid_job p \<longleftrightarrow> arrival_time p \<ge> 0 \<and> burst_time p > 0"

definition valid_registry :: "Process list \<Rightarrow> bool" where
  "valid_registry reg \<longleftrightarrow>
     length reg \<le> MAX_PROCESSES \<and> (\<forall>p \<in> set reg. initialised p \<and> valid_job p)"

text \<open>\<^verbatim>\<open>calculate_metrics\<close> takes a job for completed when its \<^verbatim>\<open>completion_time\<close> is positive.\<close>

definition is_complete :: "Process \<Rightarrow> bool" where
  "is_complete p \<longleftrightarrow> completion_time p > 0"

definition timing_ok :: "Process \<Rightarrow> bool" where
  "timing_ok p \<longleftrightarrow>
     turnaround_time p = completion_time p - arrival_time p \<and>
     waiting_time p = turnaround_time p - burst_time p \<and>
     waiting_time p \<ge> 0 \<and> turnaround_time p \<ge> burst_time p"

text \<open>The response times of the completed jobs of the emergency class.\<close>

definition emergency_responses :: "Process list \<Rightarrow> int list" where
  "emergency_responses proc =
     map response_time (filter (\<lambda>p. is_complete p \<and> priority p = 1) proc)"

text \<open>The example of the specification.\<close>

definition three_jobs :: "Process list" where
  "three_jobs =
    [new_process 0 ''P0'' ''Example'' 5 0 5,
     new_process 1 ''P1'' ''Example'' 1 2 2,
     new_process 2 ''P2'' ''Example'' 3 4 3]"

text \<open>A registry of 21 valid jobs.\<close>

definition too_many :: "Process list" where
  "too_many = map (\<lambda>i. new_process (int i) ''Job'' ''Standard'' 3 0 1) [0..<21]"

text \<open>One job that arrives before time 0, and one that needs no service.\<close>

definition early_job :: "Process list" where
  "early_job = [new_process 0 ''Early'' ''Standard'' 3 (-3) 2]"

definition empty_job :: "Process list" where
  "empty_job = [new_process 0 ''Empty'' ''Standard'' 3 0 0]"

text \<open>One valid job whose burst time is the initial value of \<^verbatim>\<open>shortest\<close>.\<close>

definition long_job :: "Process list" where
  "long_job = [new_process 0 ''Long'' ''Standard'' 3 0 999999]"


text \<open>
  Two jobs, the second with a negative burst time: first come first served leaves the clock
  at 0 after the first job has completed at 5.
\<close>

definition clock_back :: "Process list" where
  "clock_back =
    [new_process 0 ''Work'' ''Standard'' 3 0 5,
     new_process 1 ''Undo'' ''Standard'' 3 0 (-5)]"

text \<open>The job list that \<^verbatim>\<open>fcfs_scheduling\<close> leaves on \<open>clock_back\<close>.\<close>

definition clock_back_run :: "Process list" where
  "clock_back_run =
    [\<lparr>pid = 0, name = ''Work'', medical_class = ''Standard'', priority = 3,
      arrival_time = 0, burst_time = 5, remaining_time = 0, completion_time = 5,
      turnaround_time = 5, waiting_time = 0, response_time = 0, start_time = 0\<rparr>,
     \<lparr>pid = 1, name = ''Undo'', medical_class = ''Standard'', priority = 3,
      arrival_time = 0, burst_time = -5, remaining_time = 0, completion_time = 0,
      turnaround_time = 0, waiting_time = 5, response_time = 5, start_time = 5\<rparr>]"

text \<open>The state of the loop of \<^verbatim>\<open>sjf_scheduling\<close> on \<open>long_job\<close> at clock \<open>t\<close>.\<close>

definition stuck :: "int \<Rightarrow> sstate" where
  "stuck t = \<lparr>temp = long_job, current_time = t, completed = 0, switches = 0,
              is_completed = replicate MAX_PROCESSES 0\<rparr>"

text \<open>
  What the loops keep true of every job at clock \<open>t\<close>, at the head of each iteration: the
  job is valid, the service it has received so far fits between its arrival and \<open>t\<close>, it
  counts as completed once nothing remains, and its timing fields are consistent once it
  counts as completed.
\<close>

definition job_inv :: "int \<Rightarrow> Process \<Rightarrow> bool" where
  "job_inv t p \<longleftrightarrow>
     valid_job p \<and> 0 \<le> remaining_time p \<and> remaining_time p \<le> burst_time p \<and>
     (remaining_time p < burst_time p \<longrightarrow>
        arrival_time p + (burst_time p - remaining_time p) \<le> t) \<and>
     (remaining_time p = 0 \<longrightarrow> is_complete p) \<and>
     (is_complete p \<longrightarrow> timing_ok p)"

definition jobs_inv :: "int \<Rightarrow> Process list \<Rightarrow> bool" where
  "jobs_inv t ps \<longleftrightarrow> (\<forall>p \<in> set ps. job_inv t p)"

text \<open>The fields of a job that describe it, as opposed to those that a run computes.\<close>

definition descriptor :: "Process \<Rightarrow> int \<times> string \<times> string \<times> int \<times> int \<times> int" where
  "descriptor p =
     (pid p, name p, medical_class p, priority p, arrival_time p, burst_time p)"

text \<open>The number of jobs with no service left.\<close>

definition done_count :: "Process list \<Rightarrow> nat" where
  "done_count ps = length (filter (\<lambda>p. remaining_time p = 0) ps)"

text \<open>The post-run list is the registry with all jobs completed and consistent.\<close>

definition all_done :: "Process list \<Rightarrow> Process list \<Rightarrow> bool" where
  "all_done reg out \<longleftrightarrow>
     map descriptor out = map descriptor reg \<and>
     (\<forall>p \<in> set out. remaining_time p = 0 \<and> is_complete p \<and> timing_ok p)"

text \<open>
  The invariant of the three \<^verbatim>\<open>while (completed < n)\<close> loops on a registry \<open>reg\<close>:
  every job satisfies \<open>job_inv\<close> at the current clock, the describing fields are those
  of \<open>reg\<close>, and \<^verbatim>\<open>completed\<close> counts the jobs with no service left.
\<close>

definition sched_inv :: "Process list \<Rightarrow> 'a sched_scheme \<Rightarrow> bool" where
  "sched_inv reg s \<longleftrightarrow>
     jobs_inv (current_time s) (temp s) \<and>
     map descriptor (temp s) = map descriptor reg \<and>
     completed s = int (done_count (temp s))"

text \<open>
  A job that \<^verbatim>\<open>sjf_scheduling\<close> may select in state \<open>s\<close>: it has arrived and is not marked
  in \<^verbatim>\<open>is_completed\<close>.
\<close>

definition sjf_eligible :: "sstate \<Rightarrow> nat \<Rightarrow> bool" where
  "sjf_eligible s j \<longleftrightarrow>
     j < length (temp s) \<and> arrival_time (temp s ! j) \<le> current_time s \<and>
     is_completed s ! j = 0"

text \<open>
  The indices that one of the enqueueing loops of \<^verbatim>\<open>round_robin_scheduling\<close> selects, in the
  order of the loop, when the condition is read against the \<^verbatim>\<open>in_queue\<close> that the loop
  starts with.
\<close>

fun selected :: "(int \<Rightarrow> Process \<Rightarrow> int list \<Rightarrow> bool) \<Rightarrow> Process list \<Rightarrow> int \<Rightarrow>
    int list \<Rightarrow> int list" where
  "selected c [] i inq = []"
| "selected c (p # ps) i inq =
     (if c i p inq then i # selected c ps (i + 1) inq else selected c ps (i + 1) inq)"

text \<open>A condition that reads \<^verbatim>\<open>in_queue\<close> at the index of the job only.\<close>

definition reads_own_flag :: "(int \<Rightarrow> Process \<Rightarrow> int list \<Rightarrow> bool) \<Rightarrow> bool" where
  "reads_own_flag c \<longleftrightarrow> (\<forall>k p a b. a ! nat k = b ! nat k \<longrightarrow> c k p a = c k p b)"

text \<open>The ready queue proper: the cells \<^verbatim>\<open>queue[front..rear)\<close>.\<close>

definition ready_queue :: "rstate \<Rightarrow> int list" where
  "ready_queue s = drop (front s) (queue s)"

text \<open>
  The invariant of the loop of \<^verbatim>\<open>round_robin_scheduling\<close>: the ready queue holds, once
  each, exactly the jobs flagged in \<^verbatim>\<open>in_queue\<close>, and these are exactly the jobs that have
  arrived and still need service.
\<close>

definition rr_inv :: "Process list \<Rightarrow> rstate \<Rightarrow> bool" where
  "rr_inv reg s \<longleftrightarrow>
     sched_inv reg s \<and> length (temp s) \<le> length (in_queue s) \<and>
     front s \<le> length (queue s) \<and> length (queue s) \<le> MAX_PROCESSES \<and>
     distinct (ready_queue s) \<and>
     (\<forall>x \<in> set (ready_queue s). 0 \<le> x \<and> nat x < length (temp s)) \<and>
     (\<forall>i < length (temp s).
        (in_queue s ! i \<noteq> 0 \<longleftrightarrow> int i \<in> set (ready_queue s)) \<and>
        (int i \<in> set (ready_queue s) \<longleftrightarrow>
           arrival_time (temp s ! i) \<le> current_time s \<and> remaining_time (temp s ! i) > 0))"

text \<open>The states at the head of the \<^verbatim>\<open>while\<close> loop in a run on the registry \<open>reg\<close>.\<close>

inductive rr_reaches :: "Process list \<Rightarrow> rstate \<Rightarrow> bool" for reg where
  start: "rr_init reg = Inr s \<Longrightarrow> rr_reaches reg s"
| step: "rr_reaches reg s \<Longrightarrow> completed s < int (length (temp s)) \<Longrightarrow>
           rr_body s = Inr s' \<Longrightarrow> rr_reaches reg s'"

text \<open>
  The jobs whose arrival falls in the window from \<open>t\<close> (excluded) to \<open>t'\<close> (included), in
  the order of their indices.
\<close>

definition arrivals_between :: "Process list \<Rightarrow> int \<Rightarrow> int \<Rightarrow> int list" where
  "arrivals_between ps t t' =
     map int (filter (\<lambda>i. t < arrival_time (ps ! i) \<and> arrival_time (ps ! i) \<le> t')
                [0..<length ps])"

text \<open>\<^verbatim>\<open>in_queue\<close> after the flags of the indices \<open>xs\<close> have been set.\<close>

definition mark_queued :: "int list \<Rightarrow> int list \<Rightarrow> int list" where
  "mark_queued xs inq = fold (\<lambda>j a. a[nat j := 1]) xs inq"

text \<open>
  The loop of \<^verbatim>\<open>round_robin_scheduling\<close> on \<open>three_jobs\<close>: the state at the head of the
  first iteration, and the state after it.
\<close>

definition three_jobs_rr0 :: rstate where
  "three_jobs_rr0 =
     \<lparr>temp = three_jobs, current_time = 0, completed = 0, switches = 0,
      queue = [0], front = 0, in_queue = (replicate MAX_PROCESSES 0)[0 := 1]\<rparr>"

definition three_jobs_rr1 :: rstate where
  "three_jobs_rr1 =
     \<lparr>temp = three_jobs[0 := (three_jobs ! 0)\<lparr>start_time := 0, response_time := 0,
                                               remaining_time := 1\<rparr>],
      current_time = 4, completed = 0, switches = 1,
      queue = [0, 1, 2, 0], front = 1,
      in_queue = (replicate MAX_PROCESSES 0)[0 := 1, 1 := 1, 2 := 1]\<rparr>"



text \<open>
  A job of the emergency class behind a job of 999 units, and one alone: what first come
  first served leaves of them.
\<close>

definition late_emergency :: "Process list" where
  "late_emergency =
    [new_process 0 ''Slow'' ''Routine'' 5 0 999,
     new_process 1 ''Urgent'' ''Critical'' 1 0 1]"

definition late_emergency_run :: "Process list" where
  "late_emergency_run =
    [\<lparr>pid = 0, name = ''Slow'', medical_class = ''Routine'', priority = 5,
      arrival_time = 0, burst_time = 999, remaining_time = 0, completion_time = 999,
      turnaround_time = 999, waiting_time = 0, response_time = 0, start_time = 0\<rparr>,
     \<lparr>pid = 1, name = ''Urgent'', medical_class = ''Critical'', priority = 1,
      arrival_time = 0, burst_time = 1, remaining_time = 0, completion_time = 1000,
      turnaround_time = 1000, waiting_time = 999, response_time = 999, start_time = 999\<rparr>]"

definition prompt_emergency :: "Process list" where
  "prompt_emergency = [new_process 0 ''Urgent'' ''Critical'' 1 0 3]"

definition prompt_emergency_run :: "Process list" where
  "prompt_emergency_run =
    [\<lparr>pid = 0, name = ''Urgent'', medical_class = ''Critical'', priority = 1,
      arrival_time = 0, burst_time = 3, remaining_time = 0, completion_time = 3,
      turnaround_time = 3, waiting_time = 0, response_time = 0, start_time = 0\<rparr>]"

text \<open>
  A job of the emergency class behind a job of \<open>2 ^ 24 + 1\<close> units, and what first come
  first served leaves of them.
\<close>

definition slow_emergency :: "Process list" where
  "slow_emergency =
    [new_process 0 ''Slow'' ''Routine'' 5 0 16777217,
     new_process 1 ''Urgent'' ''Critical'' 1 0 1]"

definition slow_emergency_run :: "Process list" where
  "slow_emergency_run =
    [\<lparr>pid = 0, name = ''Slow'', medical_class = ''Routine'', priority = 5,
      arrival_time = 0, burst_time = 16777217, remaining_time = 0,
      completion_time = 16777217, turnaround_time = 16777217, waiting_time = 0,
      response_time = 0, start_time = 0\<rparr>,
     \<lparr>pid = 1, name = ''Urgent'', medical_class = ''Critical'', priority = 1,
      arrival_time = 0, burst_time = 1, remaining_time = 0, completion_time = 16777218,
      turnaround_time = 16777218, waiting_time = 16777217, response_time = 16777217,
      start_time = 16777217\<rparr>]"

text \<open>What first come first served leaves of \<open>early_job\<close>.\<close>

definition early_job_run :: "Process list" where
  "early_job_run =
    [\<lparr>pid = 0, name = ''Early'', medical_class = ''Standard'', priority = 3,
      arrival_time = -3, burst_time = 2, remaining_time = 0, completion_time = 2,
      turnaround_time = 5, waiting_time = 3, response_time = 3, start_time = 0\<rparr>]"

text \<open>One valid job whose priority number is the initial value of \<^verbatim>\<open>highest_priority\<close>.\<close>

definition unranked_job :: "Process list" where
  "unranked_job = [new_process 0 ''Unranked'' ''Standard'' 999 0 5]"

text \<open>
  The state of the loop of \<^verbatim>\<open>priority_scheduling\<close> on the jobs \<open>ps\<close> at clock \<open>t\<close>, when
  none of them has been dispatched.
\<close>

definition waiting :: "Process list \<Rightarrow> int \<Rightarrow> pstate" where
  "waiting ps t = \<lparr>temp = ps, current_time = t, completed = 0, switches = 0,
                   is_running = -1, events = []\<rparr>"

text \<open>The latest arrival time of a registry (0 for the empty one).\<close>

definition last_arrival :: "Process list \<Rightarrow> int" where
  "last_arrival reg = Max (insert 0 (set (map arrival_time reg)))"

text \<open>The number of distinct arrival times of a registry that lie before \<open>t\<close>.\<close>

definition arrived_before :: "Process list \<Rightarrow> int \<Rightarrow> nat" where
  "arrived_before reg t = card {a \<in> set (map arrival_time reg). a < t}"

text \<open>
  The running job of \<^verbatim>\<open>priority_scheduling\<close> at the head of an iteration at clock \<open>t\<close>: it
  still needs service, and it is the first job of least priority number among those that
  had arrived by the previous tick and still need service.
\<close>

definition running_best :: "pstate \<Rightarrow> bool" where
  "running_best s \<longleftrightarrow>
     (is_running s \<noteq> -1 \<longrightarrow>
        0 \<le> is_running s \<and> nat (is_running s) < length (temp s) \<and>
        0 < remaining_time (temp s ! nat (is_running s)) \<and>
        arrival_time (temp s ! nat (is_running s)) < current_time s \<and>
        priority (temp s ! nat (is_running s)) < 999 \<and>
        (\<forall>j < length (temp s).
           arrival_time (temp s ! j) < current_time s \<and> 0 < remaining_time (temp s ! j) \<longrightarrow>
           priority (temp s ! nat (is_running s)) \<le> priority (temp s ! j) \<and>
           (priority (temp s ! j) = priority (temp s ! nat (is_running s)) \<longrightarrow>
              nat (is_running s) \<le> j)))"

text \<open>
  The invariant of the loop of \<^verbatim>\<open>priority_scheduling\<close> that bounds the event rows: a
  dispatch follows a completion, the start, or a tick at which a job arrives; a preemption
  happens only at a tick at which a job arrives.
\<close>

definition priority_inv :: "Process list \<Rightarrow> pstate \<Rightarrow> bool" where
  "priority_inv reg s \<longleftrightarrow>
     sched_inv reg s \<and> length reg \<le> MAX_PROCESSES \<and> running_best s \<and>
     switches s \<le> completed s + int (arrived_before reg (current_time s)) +
                   (if is_running s = -1 then 0 else 1) \<and>
     int (length (events s)) \<le>
       switches s + int (arrived_before reg (current_time s)) + completed s"

text \<open>The service that the jobs still need, in all.\<close>

definition work_left :: "Process list \<Rightarrow> nat" where
  "work_left ps = sum_list (map (\<lambda>p. nat (remaining_time p)) ps)"

text \<open>
  The quanta that \<open>r\<close> units of service take. Round robin writes \<^verbatim>\<open>queue[rear++]\<close> once for
  each quantum of a job: when the job arrives, and after each quantum but its last.
\<close>

definition quanta :: "int \<Rightarrow> nat" where
  "quanta r = nat ((r + TIME_QUANTUM - 1) div TIME_QUANTUM)"

definition total_quanta :: "Process list \<Rightarrow> nat" where
  "total_quanta reg = sum_list (map (\<lambda>p. quanta (burst_time p)) reg)"

text \<open>The writes of a job to \<^verbatim>\<open>queue\<close> that are still to come at clock \<open>t\<close>.\<close>

definition writes_left :: "int \<Rightarrow> Process \<Rightarrow> nat" where
  "writes_left t p =
     (if arrival_time p \<le> t then quanta (remaining_time p) - 1 else quanta (remaining_time p))"

text \<open>
  The account of \<^verbatim>\<open>rear\<close> at the head of the loop of \<^verbatim>\<open>round_robin_scheduling\<close>: the cells
  written so far and the writes still to come make up the quanta of the registry.
\<close>

definition rr_quota :: "Process list \<Rightarrow> rstate \<Rightarrow> bool" where
  "rr_quota reg s \<longleftrightarrow>
     length (queue s) + sum_list (map (writes_left (current_time s)) (temp s)) =
       total_quanta reg"

text \<open>
  The clock of a run on \<open>reg\<close> does not pass the latest arrival by more than the burst times
  in all. The registry fits the clock when that bound is an \<^verbatim>\<open>int\<close>.
\<close>

definition clock_fits :: "Process list \<Rightarrow> bool" where
  "clock_fits reg \<longleftrightarrow> last_arrival reg + sum_list (map burst_time reg) \<le> INT_MAX"

text \<open>
  What the loops keep true of the clock on such a registry: with the service that is
  still to be given, it stays below \<^verbatim>\<open>INT_MAX\<close>.
\<close>

definition clock_inv :: "Process list \<Rightarrow> 'a sched_scheme \<Rightarrow> bool" where
  "clock_inv reg s \<longleftrightarrow>
     0 \<le> current_time s \<and>
     max (current_time s) (last_arrival reg) + int (work_left (temp s)) \<le> INT_MAX"

text \<open>
  A job that \<^verbatim>\<open>priority_scheduling\<close> never runs: it needs service, and its priority number
  is not below the initial value of \<^verbatim>\<open>highest_priority\<close>.
\<close>

definition passed_over :: "pstate \<Rightarrow> bool" where
  "passed_over s \<longleftrightarrow>
     (\<exists>j < length (temp s). 0 < remaining_time (temp s ! j) \<and> 999 \<le> priority (temp s ! j))"

text \<open>
  The invariant of the loop of \<^verbatim>\<open>priority_scheduling\<close> on a registry that fits the clock:
  \<^verbatim>\<open>completed\<close> counts the jobs with no service left, and either some job is passed over,
  and then the loop never exits, or the jobs and the clock are as \<open>sched_inv\<close> and
  \<open>clock_inv\<close> say.
\<close>

definition priority_run_inv :: "Process list \<Rightarrow> pstate \<Rightarrow> bool" where
  "priority_run_inv reg s \<longleftrightarrow>
     completed s = int (done_count (temp s)) \<and>
     (passed_over s \<or> sched_inv reg s \<and> clock_inv reg s)"

text \<open>
  What the loop of \<^verbatim>\<open>sjf_scheduling\<close> keeps true whatever the clock does: \<^verbatim>\<open>completed\<close>
  counts the jobs with no service left, the describing fields are those of the registry, a
  job that is not marked in \<^verbatim>\<open>is_completed\<close> has received no service, and a marked one needs
  none.
\<close>

definition sjf_struct :: "Process list \<Rightarrow> sstate \<Rightarrow> bool" where
  "sjf_struct reg s \<longleftrightarrow>
     completed s = int (done_count (temp s)) \<and>
     length (temp s) \<le> length (is_completed s) \<and>
     map descriptor (temp s) = map descriptor reg \<and>
     (\<forall>j < length (temp s).
        remaining_time (temp s ! j) =
          (if is_completed s ! j = 0 then burst_time (temp s ! j) else 0))"

text \<open>
  A job that \<^verbatim>\<open>sjf_scheduling\<close> never runs: it is not marked, and its burst time is not
  below the initial value of \<^verbatim>\<open>shortest\<close>.
\<close>

definition sjf_skipped :: "sstate \<Rightarrow> bool" where
  "sjf_skipped s \<longleftrightarrow>
     (\<exists>j < length (temp s). is_completed s ! j = 0 \<and> 999999 \<le> burst_time (temp s ! j))"

text \<open>
  The invariant of the loop of \<^verbatim>\<open>sjf_scheduling\<close> on a registry that fits the clock: either
  some job is skipped, and then the loop never exits, or the jobs and the clock are as
  \<open>sched_inv\<close> and \<open>clock_inv\<close> say.
\<close>

definition sjf_run_inv :: "Process list \<Rightarrow> sstate \<Rightarrow> bool" where
  "sjf_run_inv reg s \<longleftrightarrow>
     sjf_struct reg s \<and> (sjf_skipped s \<or> sched_inv reg s \<and> clock_inv reg s)"

text \<open>
  Two valid jobs whose burst times, in all, pass \<^verbatim>\<open>INT_MAX\<close>, and the job list that
  \<^verbatim>\<open>fcfs_scheduling\<close> leaves of them: the clock wraps around while the second job runs.
\<close>

definition long_pair :: "Process list" where
  "long_pair =
    [new_process 0 ''Long'' ''Standard'' 3 0 2147483647,
     new_process 1 ''Short'' ''Standard'' 3 0 1]"

definition long_pair_run :: "Process list" where
  "long_pair_run =
    [\<lparr>pid = 0, name = ''Long'', medical_class = ''Standard'', priority = 3,
      arrival_time = 0, burst_time = 2147483647, remaining_time = 0,
      completion_time = 2147483647, turnaround_time = 2147483647, waiting_time = 0,
      response_time = 0, start_time = 0\<rparr>,
     \<lparr>pid = 1, name = ''Short'', medical_class = ''Standard'', priority = 3,
      arrival_time = 0, burst_time = 1, remaining_time = 0,
      completion_time = - 2147483648, turnaround_time = - 2147483648,
      waiting_time = 2147483647, response_time = 2147483647, start_time = 2147483647\<rparr>]"

text \<open>
  Two valid jobs that arrive just before \<^verbatim>\<open>INT_MAX\<close>, and three states of the loop of
  \<^verbatim>\<open>round_robin_scheduling\<close> on them: with the clock at \<open>t\<close> before any job has arrived, at
  the arrival of the first job, and after its first quantum, during which the clock wraps
  around.
\<close>

definition late_pair :: "Process list" where
  "late_pair =
    [new_process 0 ''First'' ''Standard'' 3 2147483646 8,
     new_process 1 ''Second'' ''Standard'' 3 2147483647 1]"

definition late_pair_idle :: "int \<Rightarrow> rstate" where
  "late_pair_idle t =
     \<lparr>temp = late_pair, current_time = t, completed = 0, switches = 0,
      queue = [], front = 0, in_queue = replicate MAX_PROCESSES 0\<rparr>"

definition late_pair_rr0 :: rstate where
  "late_pair_rr0 =
     \<lparr>temp = late_pair, current_time = 2147483646, completed = 0, switches = 0,
      queue = [0], front = 0, in_queue = (replicate MAX_PROCESSES 0)[0 := 1]\<rparr>"

definition late_pair_rr1 :: rstate where
  "late_pair_rr1 =
     \<lparr>temp = late_pair[0 := (late_pair ! 0)\<lparr>start_time := 2147483646, response_time := 0,
                                             remaining_time := 4\<rparr>],
      current_time = - 2147483646, completed = 0, switches = 1,
      queue = [0, 0], front = 1, in_queue = (replicate MAX_PROCESSES 0)[0 := 1]\<rparr>"

section \<open>Properties\<close>

subsection \<open>Machine arithmetic\<close>

lemma int32_id: "INT_MIN \<le> x \<Longrightarrow> x \<le> INT_MAX \<Longrightarrow> int32 x = x"
  by (simp add: int32_def)

lemma int32_range: "INT_MIN \<le> int32 x \<and> int32 x \<le> INT_MAX"
  unfolding int32_def
  using pos_mod_sign [of 4294967296 "x + 2147483648"]
    pos_mod_bound [of 4294967296 "x + 2147483648"]
  by simp

lemma fl_zero: "fl 0 = 0"
  by (simp add: fl_def)

lemma round_even_int: "round_even (of_int n) = n"
  by (simp add: round_even_def)

lemma float_exponent_le:
  assumes "x \<noteq> 0"
  shows "2 powi float_exponent x \<le> \<bar>x\<bar>"
proof (cases "1 \<le> \<bar>x\<bar>")
  case True
  let ?m = "\<lfloor>\<bar>x\<bar>\<rfloor>"
  from True have m: "0 < ?m" by simp
  from bitlen_bounds [OF m] have b: "2 ^ nat (bitlen ?m - 1) \<le> ?m" by simp
  from m have "1 \<le> bitlen ?m" by (simp add: bitlen_alt_def)
  then have "(2::real) powi (bitlen ?m - 1) = 2 ^ nat (bitlen ?m - 1)"
    by (simp add: power_int_nonneg_exp)
  also from b have "\<dots> \<le> of_int ?m" by (metis of_int_le_iff of_int_numeral of_int_power)
  also have "\<dots> \<le> \<bar>x\<bar>" by simp
  finally show ?thesis using True by (simp add: float_exponent_def)
next
  case False
  let ?y = "1 / \<bar>x\<bar>"
  let ?m = "\<lceil>?y\<rceil> - 1"
  from False assms have y: "1 < ?y" by simp
  then have m: "0 < ?m" by linarith
  let ?k = "nat (bitlen ?m)"
  from bitlen_bounds [OF m] have "?m < 2 ^ ?k" by simp
  then have "\<lceil>?y\<rceil> \<le> 2 ^ ?k" by simp
  then have "of_int \<lceil>?y\<rceil> \<le> (2::real) ^ ?k"
    by (metis of_int_le_iff of_int_numeral of_int_power)
  then have "?y \<le> 2 ^ ?k" by linarith
  with assms have "1 / 2 ^ ?k \<le> \<bar>x\<bar>" by (simp add: field_simps)
  moreover have "(2::real) powi (- bitlen ?m) = 1 / 2 ^ ?k"
    using bitlen_nonneg [of ?m] by (simp add: power_int_minus_divide power_int_nonneg_exp)
  ultimately show ?thesis using False by (simp add: float_exponent_def)
qed

text \<open>A number with a significand of at most 24 bits is a \<^verbatim>\<open>float\<close>.\<close>

lemma fl_exact:
  assumes "\<bar>m\<bar> < 16777216"
  shows "fl (of_int m * 2 powi e) = of_int m * 2 powi e"
proof (cases "m = 0")
  case True
  then show ?thesis by (simp add: fl_def)
next
  case False
  let ?x = "of_int m * (2::real) powi e"
  let ?E = "float_exponent ?x"
  from False have x: "?x \<noteq> 0" by simp
  from float_exponent_le [OF x] have "2 powi ?E \<le> \<bar>of_int m\<bar> * (2::real) powi e"
    by (simp add: abs_mult power_int_abs)
  also have "\<dots> < 16777216 * 2 powi e"
  proof (intro mult_strict_right_mono)
    from assms have "\<bar>of_int m :: real\<bar> < of_int 16777216"
      unfolding of_int_abs [symmetric] by (simp only: of_int_less_iff)
    then show "\<bar>of_int m :: real\<bar> < 16777216" by simp
    show "0 < (2::real) powi e" by (simp add: zero_less_power_int)
  qed
  also have "\<dots> = 2 powi (24 + e)" by (simp add: power_int_add)
  finally have lt: "(2::real) powi ?E < 2 powi (24 + e)" .
  have "?E < 24 + e"
  proof (rule ccontr)
    assume "\<not> ?E < 24 + e"
    then have "(2::real) powi (24 + e) \<le> 2 powi ?E" by (intro power_int_increasing) simp_all
    with lt show False by simp
  qed
  then have d: "0 \<le> e - (?E - 23)" by simp
  have "?x / 2 powi (?E - 23) = of_int m * 2 powi (e - (?E - 23))"
    by (simp add: power_int_diff)
  also have "\<dots> = of_int (m * 2 ^ nat (e - (?E - 23)))"
    using d by (simp add: power_int_nonneg_exp)
  finally have "round_even (?x / 2 powi (?E - 23)) = m * 2 ^ nat (e - (?E - 23))"
    by (simp only: round_even_int)
  then have "fl ?x = of_int (m * 2 ^ nat (e - (?E - 23))) * 2 powi (?E - 23)"
    using x by (simp add: fl_def)
  also have "\<dots> = of_int m * (2 powi (e - (?E - 23)) * 2 powi (?E - 23))"
    using d by (simp add: power_int_nonneg_exp)
  also have "2 powi (e - (?E - 23)) * 2 powi (?E - 23) = (2::real) powi e"
    by (simp add: power_int_add [symmetric])
  finally show ?thesis .
qed

text \<open>An \<^verbatim>\<open>int\<close> of magnitude \<open>2 ^ 24\<close> at most is converted to \<^verbatim>\<open>float\<close> as it is.\<close>

lemma fl_int:
  assumes "\<bar>k\<bar> \<le> 16777216"
  shows "fl (of_int k) = of_int k"
proof (cases "\<bar>k\<bar> < 16777216")
  case True
  from fl_exact [OF True, of 0] show ?thesis by simp
next
  case False
  with assms have "k = 16777216 \<or> k = - 16777216" by linarith
  moreover from fl_exact [of 8388608 1] have "fl 16777216 = 16777216" by simp
  moreover from fl_exact [of "- 8388608" 1] have "fl (- 16777216) = - 16777216" by simp
  ultimately show ?thesis by auto
qed

text \<open>Small integers and their halves are \<^verbatim>\<open>float\<close> values.\<close>

lemma fl_numeral: "numeral w \<le> (16777216::int) \<Longrightarrow> fl (numeral w) = numeral w"
  using fl_int [of "numeral w"] by simp

lemma fl_values: "fl 1 = 1" "fl 2 = 2" "fl 3 = 3" "fl 4 = 4" "fl 5 = 5" "fl 100 = 100"
  "fl (1 / 2) = 1 / 2"
proof -
  show "fl 1 = 1" using fl_int [of 1] by simp
  show "fl 2 = 2" "fl 3 = 3" "fl 4 = 4" "fl 5 = 5" "fl 100 = 100"
    by (simp_all add: fl_numeral)
  show "fl (1 / 2) = 1 / 2" using fl_exact [of 1 "-1"] by simp
qed

text \<open>
  The conversion of an \<^verbatim>\<open>int\<close> beyond \<open>2 ^ 24\<close> stays beyond it; so it preserves the order
  between an \<^verbatim>\<open>int\<close> and one of magnitude \<open>2 ^ 24\<close> at most. But it does round:
  \<open>16777217\<close> becomes \<open>16777216\<close>.
\<close>

lemma round_even_bounds: "\<lfloor>r\<rfloor> \<le> round_even r \<and> round_even r \<le> \<lceil>r\<rceil>"
proof (cases "r = of_int \<lfloor>r\<rfloor>")
  case True
  then have "round_even r = \<lfloor>r\<rfloor>" by (simp add: round_even_def)
  then show ?thesis by (simp add: floor_le_ceiling)
next
  case False
  then have "\<lceil>r\<rceil> = \<lfloor>r\<rfloor> + 1" by (simp add: ceiling_altdef)
  then show ?thesis by (simp add: round_even_def)
qed

lemma fl_magnitude:
  assumes "x \<noteq> 0"
  shows "if 0 < x then 2 powi float_exponent x \<le> fl x else fl x \<le> - (2 powi float_exponent x)"
proof -
  let ?E = "float_exponent x"
  let ?u = "(2::real) powi (?E - 23)"
  let ?r = "x / ?u"
  have u: "0 < ?u" by (simp add: zero_less_power_int)
  have s: "8388608 * ?u = 2 powi ?E"
  proof -
    have "(2::real) powi ?E = 2 powi (23 + (?E - 23))" by simp
    also have "\<dots> = 2 powi 23 * ?u" by (subst power_int_add) simp_all
    finally show ?thesis by simp
  qed
  from assms have f: "fl x = of_int (round_even ?r) * ?u" by (simp add: fl_def)
  show ?thesis
  proof (cases "0 < x")
    case True
    with float_exponent_le [OF assms] have "2 powi ?E \<le> x" by simp
    with s have "8388608 * ?u \<le> x" by simp
    with u have "8388608 \<le> ?r" by (simp add: pos_le_divide_eq)
    then have "(8388608::int) \<le> \<lfloor>?r\<rfloor>" by (simp add: le_floor_iff)
    with round_even_bounds [of ?r] have "(8388608::int) \<le> round_even ?r" by linarith
    then have "(8388608::real) \<le> of_int (round_even ?r)" by linarith
    with u have "8388608 * ?u \<le> of_int (round_even ?r) * ?u"
      by (intro mult_right_mono) simp_all
    with s f True show ?thesis by simp
  next
    case False
    with assms have neg: "x < 0" by simp
    with float_exponent_le [OF assms] have "x \<le> - (2 powi ?E)" by simp
    with s have "x \<le> - 8388608 * ?u" by simp
    with u have "?r \<le> - 8388608" by (simp add: pos_divide_le_eq)
    then have "\<lceil>?r\<rceil> \<le> (- 8388608::int)" by (simp add: ceiling_le_iff)
    with round_even_bounds [of ?r] have "round_even ?r \<le> (- 8388608::int)" by linarith
    then have "of_int (round_even ?r) \<le> (- 8388608::real)" by linarith
    with u have "of_int (round_even ?r) * ?u \<le> - 8388608 * ?u"
      by (intro mult_right_mono) simp_all
    with s f False show ?thesis by simp
  qed
qed

lemma float_exponent_int:
  assumes "16777216 \<le> \<bar>k\<bar>"
  shows "(16777216::real) \<le> 2 powi float_exponent (of_int k)"
proof -
  let ?m = "\<bar>k\<bar>"
  from assms have m: "0 < ?m" by simp
  have fe: "float_exponent (of_int k) = bitlen ?m - 1"
    using assms by (simp add: float_exponent_def flip: of_int_abs)
  have "24 < bitlen ?m"
  proof (rule ccontr)
    assume "\<not> 24 < bitlen ?m"
    then have "nat (bitlen ?m) \<le> 24" by simp
    then have "(2::int) ^ nat (bitlen ?m) \<le> 2 ^ 24" by (intro power_increasing) simp_all
    with bitlen_bounds [OF m] assms show False by simp
  qed
  then have "(2::real) powi 24 \<le> 2 powi (bitlen ?m - 1)"
    by (intro power_int_increasing) simp_all
  with fe show ?thesis by simp
qed

lemma fl_int_large:
  "16777216 \<le> k \<Longrightarrow> 16777216 \<le> fl (of_int k)"
  "k \<le> - 16777216 \<Longrightarrow> fl (of_int k) \<le> - 16777216"
proof -
  assume k: "16777216 \<le> k"
  then have "(of_int k :: real) \<noteq> 0" "0 < (of_int k :: real)" by simp_all
  from fl_magnitude [OF this(1)] this(2) float_exponent_int [of k] k
  show "16777216 \<le> fl (of_int k)" by simp
next
  assume k: "k \<le> - 16777216"
  then have "(of_int k :: real) \<noteq> 0" "\<not> 0 < (of_int k :: real)" by simp_all
  from fl_magnitude [OF this(1)] this(2) float_exponent_int [of k] k
  show "fl (of_int k) \<le> - 16777216" by simp
qed

lemma fl_int_ge:
  assumes "\<bar>m\<bar> \<le> 16777216" and "m \<le> k"
  shows "of_int m \<le> fl (of_int k)"
proof (cases "k \<le> 16777216")
  case True
  with assms have "\<bar>k\<bar> \<le> 16777216" by simp
  from fl_int [OF this] assms(2) show ?thesis by simp
next
  case False
  then have "16777216 \<le> fl (of_int k)" by (intro fl_int_large) simp
  moreover from assms(1) have "(of_int m :: real) \<le> 16777216" by linarith
  ultimately show ?thesis by simp
qed

lemma fl_int_le:
  assumes "\<bar>m\<bar> \<le> 16777216" and "k \<le> m"
  shows "fl (of_int k) \<le> of_int m"
proof (cases "- 16777216 \<le> k")
  case True
  with assms have "\<bar>k\<bar> \<le> 16777216" by simp
  from fl_int [OF this] assms(2) show ?thesis by simp
next
  case False
  then have "fl (of_int k) \<le> - 16777216" by (intro fl_int_large) simp
  moreover from assms(1) have "- 16777216 \<le> (of_int m :: real)" by linarith
  ultimately show ?thesis by simp
qed

lemma fl_odd: "fl 16777217 = 16777216"
  by code_simp

subsection \<open>From the loops to the algorithms\<close>

text \<open>
  What an algorithm returns, read off the state that its loop returns: the job list, the
  events, the count of context switches and the clock, which is the reported total time.
\<close>

lemma metrics_counters:
  "context_switches ((calculate_metrics ps t)\<lparr>context_switches := c\<rparr>) = c"
  "total_time ((calculate_metrics ps t)\<lparr>context_switches := c\<rparr>) = t"
  by (simp_all add: calculate_metrics_def Let_def)

lemma fcfs_scheduling_run:
  assumes "length reg \<le> MAX_PROCESSES" and "fcfs_loop 0 0 reg [] = (t, cs, out)"
  shows "\<exists>m. fcfs_scheduling reg = Inr (m, out) \<and> context_switches m = cs \<and> total_time m = t"
  using assms by (simp add: fcfs_scheduling_def copy_in_def metrics_counters)

lemma priority_scheduling_run:
  assumes "length reg \<le> MAX_PROCESSES"
    and "priority_loop \<lparr>temp = reg, current_time = 0, completed = 0, switches = 0,
                         is_running = -1, events = []\<rparr> = Some (Inr s)"
  shows "\<exists>m. priority_scheduling reg = Some (Inr (m, temp s, events s)) \<and>
             context_switches m = switches s \<and> total_time m = current_time s"
  using assms by (simp add: priority_scheduling_def copy_in_def metrics_counters)

lemma sjf_scheduling_run:
  assumes "length reg \<le> MAX_PROCESSES"
    and "sjf_loop \<lparr>temp = reg, current_time = 0, completed = 0, switches = 0,
                    is_completed = replicate MAX_PROCESSES 0\<rparr> = Some s"
  shows "\<exists>m. sjf_scheduling reg = Some (Inr (m, temp s)) \<and>
             context_switches m = switches s \<and> total_time m = current_time s"
  using assms by (simp add: sjf_scheduling_def copy_in_def metrics_counters)

lemma round_robin_scheduling_run:
  assumes "length reg \<le> MAX_PROCESSES" and "rr_init reg = Inr s0"
    and "rr_loop s0 = Some (Inr s)"
  shows "\<exists>m. round_robin_scheduling reg = Some (Inr (m, temp s)) \<and>
             context_switches m = switches s \<and> total_time m = current_time s"
  using assms by (simp add: round_robin_scheduling_def copy_in_def metrics_counters)

lemma round_robin_scheduling_fault:
  assumes "length reg \<le> MAX_PROCESSES" and "rr_init reg = Inr s0"
    and "rr_loop s0 = Some (Inl f)"
  shows "round_robin_scheduling reg = Some (Inl f)"
  using assms by (simp add: round_robin_scheduling_def copy_in_def)

lemma rr_run_cases:
  assumes "case rr_init reg of
             Inr s0 \<Rightarrow> (case rr_loop s0 of Some (Inr s) \<Rightarrow> P s | _ \<Rightarrow> False)
           | Inl f \<Rightarrow> False"
  obtains s0 s where "rr_init reg = Inr s0" and "rr_loop s0 = Some (Inr s)" and "P s"
proof (cases "rr_init reg")
  case (Inl f)
  with assms show ?thesis by simp
next
  case i: (Inr s0)
  show ?thesis
  proof (cases "rr_loop s0")
    case None
    with assms i show ?thesis by simp
  next
    case (Some r)
    with assms i that show ?thesis by (cases r) simp_all
  qed
qed

subsection \<open>The example trace of the preemptive scheduler\<close>

lemma three_jobs_length: "length three_jobs = 3"
  by (simp add: three_jobs_def)

lemma three_jobs_priority_loop:
  "(case priority_loop \<lparr>temp = three_jobs, current_time = 0, completed = 0, switches = 0,
                         is_running = -1, events = []\<rparr> of
      Some (Inr s) \<Rightarrow>
        events s = [(0, 0, Start), (2, 0, Preempt), (2, 1, Start), (4, 1, Complete),
                    (4, 2, Start), (7, 2, Complete), (7, 0, Start), (10, 0, Complete)] \<and>
        map (\<lambda>p. (pid p, response_time p, turnaround_time p, waiting_time p)) (temp s) =
          [(0, 0, 10, 5), (1, 0, 2, 0), (2, 0, 3, 0)] \<and>
        switches s = 4 \<and> current_time s = 10
    | _ \<Rightarrow> False)"
  by code_simp

text \<open>
  Claim C2. On \<open>three_jobs\<close> the preemptive priority scheduler returns, records exactly
  the eight events Start(P0,0), Preempt(P0,2), Start(P1,2), Complete(P1,4), Start(P2,4),
  Complete(P2,7), Start(P0,7), Complete(P0,10), leaves the (response, turnaround, waiting)
  times (0,10,5) for P0, (0,2,0) for P1 and (0,3,0) for P2, counts 4 context switches and
  reports a total time of 10.
\<close>

theorem priority_example_trace:
  "(case priority_scheduling three_jobs of
      Some (Inr (m, out, evs)) \<Rightarrow>
        evs = [(0, 0, Start), (2, 0, Preempt), (2, 1, Start), (4, 1, Complete),
               (4, 2, Start), (7, 2, Complete), (7, 0, Start), (10, 0, Complete)] \<and>
        map (\<lambda>p. (pid p, response_time p, turnaround_time p, waiting_time p)) out =
          [(0, 0, 10, 5), (1, 0, 2, 0), (2, 0, 3, 0)] \<and>
        context_switches m = 4 \<and> total_time m = 10
    | _ \<Rightarrow> False)"
proof -
  from three_jobs_priority_loop obtain s
    where l: "priority_loop \<lparr>temp = three_jobs, current_time = 0, completed = 0,
                switches = 0, is_running = -1, events = []\<rparr> = Some (Inr s)"
      and s: "events s = [(0, 0, Start), (2, 0, Preempt), (2, 1, Start), (4, 1, Complete),
                (4, 2, Start), (7, 2, Complete), (7, 0, Start), (10, 0, Complete)]"
        "map (\<lambda>p. (pid p, response_time p, turnaround_time p, waiting_time p)) (temp s) =
           [(0, 0, 10, 5), (1, 0, 2, 0), (2, 0, 3, 0)]"
        "switches s = 4" "current_time s = 10"
    by (auto split: option.splits sum.splits)
  from priority_scheduling_run [OF _ l] three_jobs_length s show ?thesis by auto
qed

subsection \<open>The ready queue of round robin\<close>

lemma emergency_scenario_length: "length init_emergency_scenario = 12"
  by (simp add: init_emergency_scenario_def)

lemma emergency_scenario_loop:
  "(case rr_init init_emergency_scenario of
      Inr s0 \<Rightarrow> rr_loop s0 = Some (Inl Array_Overrun) | Inl f \<Rightarrow> False)"
  by code_simp

text \<open>
  Claim C3 (fails on the code). The emergency scenario of the source itself has 12 valid
  jobs, and its round-robin run writes \<^verbatim>\<open>queue[rear++]\<close> with \<^verbatim>\<open>rear = 20\<close>: the jobs
  need 30 quanta in all, each quantum is one write, and \<^verbatim>\<open>rear\<close> is never reset.
\<close>

theorem round_robin_emergency_overrun:
  "round_robin_scheduling init_emergency_scenario = Some (Inl Array_Overrun)"
proof -
  from emergency_scenario_loop obtain s0
    where i: "rr_init init_emergency_scenario = Inr s0"
      and l: "rr_loop s0 = Some (Inl Array_Overrun)"
    by (auto split: sum.splits)
  from round_robin_scheduling_fault [OF _ i l] emergency_scenario_length
  show ?thesis by simp
qed

lemma emergency_scenario_valid: "valid_registry init_emergency_scenario"
  by code_simp

text \<open>
  The other two scenarios of the source need 15 and 11 quanta, and their round-robin runs
  return, with one context switch for each quantum.
\<close>

lemma normal_scenario_loop:
  "(case rr_init init_normal_scenario of
      Inr s0 \<Rightarrow>
        (case rr_loop s0 of
           Some (Inr s) \<Rightarrow> switches s = 15 \<and> current_time s = 55 | _ \<Rightarrow> False)
    | Inl f \<Rightarrow> False)"
  by code_simp

lemma round_robin_normal_scenario:
  "(case round_robin_scheduling init_normal_scenario of
      Some (Inr (m, out)) \<Rightarrow> context_switches m = 15 \<and> total_time m = 55
    | _ \<Rightarrow> False)"
proof -
  from normal_scenario_loop obtain s0 s
    where i: "rr_init init_normal_scenario = Inr s0" and l: "rr_loop s0 = Some (Inr s)"
      and s: "switches s = 15 \<and> current_time s = 55"
    by (rule rr_run_cases)
  from round_robin_scheduling_run [OF _ i l] s show ?thesis
    by (auto simp: init_normal_scenario_def)
qed

lemma best_scenario_loop:
  "(case rr_init init_best_scenario of
      Inr s0 \<Rightarrow>
        (case rr_loop s0 of
           Some (Inr s) \<Rightarrow> switches s = 11 \<and> current_time s = 41 | _ \<Rightarrow> False)
    | Inl f \<Rightarrow> False)"
  by code_simp

lemma round_robin_best_scenario:
  "(case round_robin_scheduling init_best_scenario of
      Some (Inr (m, out)) \<Rightarrow> context_switches m = 11 \<and> total_time m = 41
    | _ \<Rightarrow> False)"
proof -
  from best_scenario_loop obtain s0 s
    where i: "rr_init init_best_scenario = Inr s0" and l: "rr_loop s0 = Some (Inr s)"
      and s: "switches s = 11 \<and> current_time s = 41"
    by (rule rr_run_cases)
  from round_robin_scheduling_run [OF _ i l] s show ?thesis
    by (auto simp: init_best_scenario_def)
qed

subsection \<open>Termination\<close>

lemma long_job_valid: "valid_registry long_job"
  by (simp add: valid_registry_def long_job_def initialised_def valid_job_def new_process_def)

lemma sjf_body_stuck: "sjf_body (stuck t) = stuck (int32 (t + 1))"
  by (simp add: sjf_body_def stuck_def long_job_def new_process_def)

lemma stuck_not_done: "completed (stuck t) < int (length (temp (stuck t)))"
  by (simp add: stuck_def long_job_def)

lemma sjf_loop_stuck_aux:
  assumes "sjf_loop s = Some y"
  shows "\<forall>t. s \<noteq> stuck t"
proof (rule sjf_loop.raw_induct [where P = "\<lambda>s y. \<forall>t. s \<noteq> stuck t", OF _ assms])
  fix f :: "sstate \<Rightarrow> sstate option" and s y
  assume IH: "\<And>x y. f x = Some y \<Longrightarrow> \<forall>t. x \<noteq> stuck t"
    and step: "(if completed s < int (length (temp s)) then f (sjf_body s) else Some s) = Some y"
  show "\<forall>t. s \<noteq> stuck t"
  proof
    fix t
    show "s \<noteq> stuck t"
    proof
      assume eq: "s = stuck t"
      from step have "f (stuck (int32 (t + 1))) = Some y"
        unfolding eq using stuck_not_done [of t] by (simp add: sjf_body_stuck)
      from IH [OF this] show False by blast
    qed
  qed
qed

lemma sjf_loop_stuck: "sjf_loop (stuck t) = None"
  using sjf_loop_stuck_aux [of "stuck t"] by (cases "sjf_loop (stuck t)") auto

text \<open>
  Claim C10 (fails on the code). \<open>long_job\<close> is a registry of one valid job, with burst time
  999999. The selection loop of \<^verbatim>\<open>sjf_scheduling\<close> starts from \<^verbatim>\<open>shortest = 999999\<close> and
  takes a job only when its burst time is strictly smaller, so this job is never selected,
  every iteration is an idle tick, and the \<^verbatim>\<open>while\<close> loop never exits.
\<close>

theorem sjf_long_job_never_returns: "sjf_scheduling long_job = None"
  using sjf_loop_stuck [of 0]
  by (simp add: sjf_scheduling_def copy_in_def stuck_def) (simp add: long_job_def)

subsection \<open>Capacity and validation\<close>

text \<open>
  Claim C5 (fails on the code). The 21 valid jobs of \<open>too_many\<close> are built like any other
  registry, and \<^verbatim>\<open>run_scenario\<close> does not answer them with an error: it has none to give. It
  copies the registry into arrays of 20 entries, and the copy runs past them.
\<close>

theorem capacity_counterexample:
  "length too_many = 21 \<and> run_scenario too_many = Some (Inl Array_Overrun)"
  by (simp add: too_many_def run_scenario_def copy_in_def)

text \<open>
  Claim C5, amended. No size check stands before the algorithms. A registry of at most 20
  jobs is handed over as it is. With a registry of more than 20 jobs, the first thing that
  \<^verbatim>\<open>run_scenario\<close> and each of the four algorithms do is to overrun a 20-entry array with
  their copy of it.
\<close>

theorem capacity_unchecked:
  "(length reg \<le> MAX_PROCESSES \<longrightarrow> copy_in reg = Inr reg) \<and>
   (MAX_PROCESSES < length reg \<longrightarrow>
      run_scenario reg = Some (Inl Array_Overrun) \<and>
      priority_scheduling reg = Some (Inl Array_Overrun) \<and>
      fcfs_scheduling reg = Inl Array_Overrun \<and>
      sjf_scheduling reg = Some (Inl Array_Overrun) \<and>
      round_robin_scheduling reg = Some (Inl Array_Overrun))"
  by (simp add: run_scenario_def priority_scheduling_def fcfs_scheduling_def
      sjf_scheduling_def round_robin_scheduling_def copy_in_def)

theorem capacity_unchecked_witness:
  "length three_jobs \<le> MAX_PROCESSES \<and> copy_in three_jobs = Inr three_jobs \<and>
   MAX_PROCESSES < length too_many \<and>
   fcfs_scheduling too_many = Inl Array_Overrun \<and>
   sjf_scheduling too_many = Some (Inl Array_Overrun)"
  using capacity_unchecked [of three_jobs] capacity_unchecked [of too_many]
  by (simp add: three_jobs_def too_many_def)

subsection \<open>Basic facts\<close>

lemma map_descriptor_update:
  "descriptor q = descriptor (ps ! i) \<Longrightarrow> map descriptor (ps[i := q]) = map descriptor ps"
proof (cases "i < length ps")
  case True
  assume "descriptor q = descriptor (ps ! i)"
  with True show ?thesis by (simp add: map_update list_update_same_conv)
next
  case False
  then have "ps[i := q] = ps" by (intro list_update_beyond) simp
  then show ?thesis by simp
qed

lemma done_count_update:
  assumes "i < length ps"
  shows "done_count (ps[i := q]) + (if remaining_time (ps ! i) = 0 then 1 else 0) =
         done_count ps + (if remaining_time q = 0 then 1 else 0)"
  using assms unfolding done_count_def
proof (induction ps arbitrary: i)
  case Nil
  then show ?case by simp
next
  case (Cons p ps)
  then show ?case by (cases i) auto
qed

lemma done_count_all:
  assumes "length ps \<le> done_count ps" and "p \<in> set ps"
  shows "remaining_time p = 0"
proof (rule ccontr)
  assume "remaining_time p \<noteq> 0"
  with assms(2) have "length (filter (\<lambda>p. remaining_time p = 0) ps) < length ps"
    by (intro length_filter_less) auto
  with assms(1) show False by (simp add: done_count_def)
qed

lemma nth_Cons_shift: "i < k \<Longrightarrow> (p # ps) ! nat (k - i) = ps ! nat (k - (i + 1))" for i k :: int
proof -
  assume "i < k"
  then have "nat (k - i) = Suc (nat (k - (i + 1)))" by arith
  then show ?thesis by simp
qed

lemma initialised_fields:
  "initialised p \<Longrightarrow>
     remaining_time p = burst_time p \<and> completion_time p = 0 \<and> start_time p = -1"
  by (cases p) (simp add: initialised_def new_process_def)

lemma last_arrival_ge: "p \<in> set reg \<Longrightarrow> arrival_time p \<le> last_arrival reg"
  by (simp add: last_arrival_def)

lemma descriptor_nth:
  assumes "map descriptor a = map descriptor b" and "j < length a"
  shows "arrival_time (a ! j) = arrival_time (b ! j) \<and> burst_time (a ! j) = burst_time (b ! j) \<and>
         priority (a ! j) = priority (b ! j) \<and> b ! j \<in> set b"
proof -
  from assms(1) have len: "length a = length b" by (rule map_eq_imp_length_eq)
  from assms have "descriptor (a ! j) = descriptor (b ! j)"
    by (metis len nth_map)
  with len assms(2) show ?thesis by (simp add: descriptor_def)
qed

lemma done_count_less:
  assumes "done_count ps < length ps"
  shows "\<exists>j < length ps. remaining_time (ps ! j) \<noteq> 0"
proof (rule ccontr)
  assume "\<not> (\<exists>j < length ps. remaining_time (ps ! j) \<noteq> 0)"
  then have "\<forall>p \<in> set ps. remaining_time p = 0" by (auto simp: in_set_conv_nth)
  then have "filter (\<lambda>p. remaining_time p = 0) ps = ps" by (simp add: filter_id_conv)
  with assms show False by (simp add: done_count_def)
qed

lemma done_count_le: "done_count ps \<le> length ps"
  by (simp add: done_count_def)

text \<open>Serving a job leaves less work.\<close>

lemma work_left_update:
  assumes "i < length ps" and "0 < remaining_time (ps ! i)"
    and "remaining_time q < remaining_time (ps ! i)"
  shows "work_left (ps[i := q]) < work_left ps"
  using assms
proof (induction ps arbitrary: i)
  case Nil
  then show ?case by simp
next
  case (Cons p ps)
  show ?case
  proof (cases i)
    case 0
    with Cons.prems show ?thesis by (simp add: work_left_def)
  next
    case (Suc k)
    with Cons.prems Cons.IH [of k] show ?thesis by (simp add: work_left_def)
  qed
qed

lemma descriptor_times:
  assumes "map descriptor a = map descriptor b"
  shows "map arrival_time a = map arrival_time b \<and> map burst_time a = map burst_time b"
proof -
  have "map arrival_time xs = map (\<lambda>d. fst (snd (snd (snd (snd d))))) (map descriptor xs)"
    and "map burst_time xs = map (\<lambda>d. snd (snd (snd (snd (snd d))))) (map descriptor xs)"
    for xs
    by (simp_all add: descriptor_def)
  with assms show ?thesis by metis
qed


text \<open>The work that is left, job by job.\<close>

lemma work_left_nth: "i < length ps \<Longrightarrow> nat (remaining_time (ps ! i)) \<le> work_left ps"
  unfolding work_left_def by (intro member_le_sum_list) simp_all

lemma work_left_served:
  assumes "i < length ps" and "0 \<le> remaining_time q"
    and "remaining_time q \<le> remaining_time (ps ! i)"
  shows "int (work_left (ps[i := q])) =
         int (work_left ps) - (remaining_time (ps ! i) - remaining_time q)"
  using assms
proof (induction ps arbitrary: i)
  case Nil
  then show ?case by simp
next
  case (Cons p ps)
  show ?case
  proof (cases i)
    case 0
    with Cons.prems show ?thesis by (simp add: work_left_def)
  next
    case (Suc k)
    with Cons.prems Cons.IH [of k] show ?thesis by (simp add: work_left_def)
  qed
qed

lemma last_arrival_nonneg: "0 \<le> last_arrival reg"
  by (simp add: last_arrival_def)

text \<open>At the start of a run on a valid registry that fits the clock.\<close>

lemma clock_inv_init:
  assumes "valid_registry reg" and "clock_fits reg"
    and "temp s = reg" and "current_time s = 0"
  shows "clock_inv reg s"
proof -
  have "int (work_left ps) = sum_list (map burst_time ps)"
    if "\<forall>p \<in> set ps. remaining_time p = burst_time p \<and> 0 < burst_time p" for ps
    using that by (induction ps) (simp_all add: work_left_def)
  moreover have "remaining_time p = burst_time p \<and> 0 < burst_time p" if "p \<in> set reg" for p
    using that assms(1) initialised_fields [of p] by (simp add: valid_registry_def valid_job_def)
  ultimately have "int (work_left reg) = sum_list (map burst_time reg)" by blast
  with assms last_arrival_nonneg [of reg] show ?thesis
    by (simp add: clock_inv_def clock_fits_def max_def)
qed

subsection \<open>Invariants of the loops\<close>

lemma priority_loop_invariant:
  assumes run: "priority_loop s = Some (Inr s')"
    and init: "I s"
    and step: "\<And>a b. I a \<Longrightarrow> completed a < int (length (temp a)) \<Longrightarrow>
                 priority_body a = Inr b \<Longrightarrow> I b"
  shows "I s' \<and> \<not> completed s' < int (length (temp s'))"
proof -
  have "I s \<longrightarrow> (\<forall>s'. r = Inr s' \<longrightarrow>
          I s' \<and> \<not> completed s' < int (length (temp s')))"
    if "priority_loop s = Some r" for r
  proof (rule priority_loop.raw_induct
      [where P = "\<lambda>s r. I s \<longrightarrow> (\<forall>s'. r = Inr s' \<longrightarrow>
          I s' \<and> \<not> completed s' < int (length (temp s')))", OF _ that])
    fix f :: "pstate \<Rightarrow> (fault + pstate) option" and a r
    assume IH: "\<And>x y. f x = Some y \<Longrightarrow> I x \<longrightarrow> (\<forall>s'. y = Inr s' \<longrightarrow> I s' \<and> \<not> completed s' < int (length (temp s')))"
      and eq: "(if completed a < int (length (temp a))
                then case priority_body a of Inl f \<Rightarrow> Some (Inl f) | Inr s' \<Rightarrow> f s'
                else Some (Inr a)) = Some r"
    show "I a \<longrightarrow> (\<forall>s'. r = Inr s' \<longrightarrow>
          I s' \<and> \<not> completed s' < int (length (temp s')))"
    proof (cases "completed a < int (length (temp a))")
      case False
      with eq show ?thesis by auto
    next
      case True
      show ?thesis
      proof (cases "priority_body a")
        case (Inl e)
        with True eq show ?thesis by auto
      next
        case (Inr b)
        with True eq have "f b = Some r" by simp
        from IH [OF this] step [OF _ True Inr] show ?thesis by blast
      qed
    qed
  qed
  with run init show ?thesis by blast
qed

lemma job_inv_later: "job_inv t p \<Longrightarrow> t \<le> t' \<Longrightarrow> job_inv t' p"
  by (auto simp: job_inv_def)

lemma jobs_inv_later: "jobs_inv t ps \<Longrightarrow> t \<le> t' \<Longrightarrow> jobs_inv t' ps"
  by (auto simp: jobs_inv_def intro: job_inv_later)

lemma jobs_inv_update: "jobs_inv t ps \<Longrightarrow> job_inv t p \<Longrightarrow> jobs_inv t (ps[i := p])"
  by (auto simp: jobs_inv_def dest: set_update_subset_insert [THEN subsetD])

lemma jobs_inv_nth: "jobs_inv t ps \<Longrightarrow> i < length ps \<Longrightarrow> job_inv t (ps ! i)"
  by (simp add: jobs_inv_def)

text \<open>A job is served for \<open>e\<close> units from clock \<open>t\<close> on, and has service left.\<close>

lemma job_inv_served:
  assumes "job_inv t p" and "arrival_time p \<le> t" and "0 < e" and "e < remaining_time p"
  shows "job_inv (t + e) (p\<lparr>start_time := a, response_time := b,
           remaining_time := remaining_time p - e\<rparr>)"
  using assms by (auto simp: job_inv_def valid_job_def is_complete_def timing_ok_def)

text \<open>A job is served for the \<open>e\<close> units that it still needs, and its completion is recorded.\<close>

lemma job_inv_completed:
  assumes "job_inv t p" and "arrival_time p \<le> t" and "0 < e" and "e = remaining_time p"
  shows "job_inv (t + e) (p\<lparr>start_time := a, response_time := b, remaining_time := 0,
           completion_time := t + e, turnaround_time := t + e - arrival_time p,
           waiting_time := (t + e - arrival_time p) - burst_time p\<rparr>)"
  using assms by (auto simp: job_inv_def valid_job_def is_complete_def timing_ok_def)

lemma priority_scan_result:
  "priority_scan t ps i (nx, hp) = (nx', hp') \<Longrightarrow>
     nx' = nx \<or>
     (i \<le> nx' \<and> nx' < i + int (length ps) \<and>
      arrival_time (ps ! nat (nx' - i)) \<le> t \<and> remaining_time (ps ! nat (nx' - i)) > 0)"
proof (induction ps arbitrary: i nx hp)
  case Nil
  then show ?case by simp
next
  case (Cons p ps)
  let ?c = "arrival_time p \<le> t \<and> remaining_time p > 0 \<and> priority p < hp"
  let ?in = "\<lambda>j. j \<le> nx' \<and> nx' < j + int (length ps) \<and>
      arrival_time (ps ! nat (nx' - j)) \<le> t \<and> remaining_time (ps ! nat (nx' - j)) > 0"
  have tail: "?in (i + 1) \<Longrightarrow> ?case"
    using nth_Cons_shift [of i nx' p ps] by auto
  show ?case
  proof (cases ?c)
    case True
    with Cons.prems have "priority_scan t ps (i + 1) (i, priority p) = (nx', hp')" by simp
    from Cons.IH [OF this] have "nx' = i \<or> ?in (i + 1)" .
    then show ?thesis
    proof
      assume "nx' = i"
      with True show ?thesis by simp
    next
      assume "?in (i + 1)"
      then show ?thesis by (rule tail)
    qed
  next
    case False
    with Cons.prems have "priority_scan t ps (i + 1) (nx, hp) = (nx', hp')" by auto
    from Cons.IH [OF this] have "nx' = nx \<or> ?in (i + 1)" .
    then show ?thesis using tail by blast
  qed
qed

lemma dispatch_result:
  assumes "dispatch s nx = Inr s1"
  shows "current_time s1 = current_time s \<and> completed s1 = completed s \<and>
         (temp s1 = temp s \<or>
          temp s1 = (temp s)[nat nx := (temp s ! nat nx)\<lparr>start_time := current_time s,
             response_time := int32 (current_time s - arrival_time (temp s ! nat nx))\<rparr>])"
  using assms by (auto simp: dispatch_def Let_def split: sum.splits if_splits)

lemma finish_result:
  assumes "finish s nx = Inr s1"
  shows "current_time s1 = current_time s \<and> completed s1 = completed s + 1 \<and>
         temp s1 = (temp s)[nat nx := (temp s ! nat nx)\<lparr>completion_time := current_time s,
             turnaround_time := int32 (current_time s - arrival_time (temp s ! nat nx)),
             waiting_time := int32 (int32 (current_time s - arrival_time (temp s ! nat nx))
                               - burst_time (temp s ! nat nx))\<rparr>]"
  using assms by (auto simp: finish_def Let_def split: sum.splits)

text \<open>An iteration of the loop of \<^verbatim>\<open>priority_scheduling\<close> that runs the job \<open>nx\<close>.\<close>

lemma priority_body_at:
  assumes body: "priority_body s = Inr s1"
    and scan: "priority_scan (current_time s) (temp s) 0 (-1, 999) = (nx, hp)"
    and nx: "nx \<noteq> -1"
  shows "\<exists>a b. 0 \<le> nx \<and> nat nx < length (temp s) \<and>
       arrival_time (temp s ! nat nx) \<le> current_time s \<and>
       0 < remaining_time (temp s ! nat nx) \<and>
       current_time s1 = int32 (current_time s + 1) \<and>
       (if remaining_time (temp s ! nat nx) = 1
        then completed s1 = completed s + 1 \<and>
             temp s1 = (temp s)[nat nx := (temp s ! nat nx)
               \<lparr>start_time := a, response_time := b, remaining_time := 0,
                completion_time := int32 (current_time s + 1),
                turnaround_time :=
                  int32 (int32 (current_time s + 1) - arrival_time (temp s ! nat nx)),
                waiting_time :=
                  int32 (int32 (int32 (current_time s + 1) - arrival_time (temp s ! nat nx))
                           - burst_time (temp s ! nat nx))\<rparr>]
        else completed s1 = completed s \<and>
             temp s1 = (temp s)[nat nx := (temp s ! nat nx)
               \<lparr>start_time := a, response_time := b,
                remaining_time := remaining_time (temp s ! nat nx) - 1\<rparr>])"
proof -
  let ?t = "current_time s"
  let ?p = "temp s ! nat nx"
  from nx priority_scan_result [OF scan]
  have rng: "0 \<le> nx" "nat nx < length (temp s)"
    and arr: "arrival_time ?p \<le> ?t" and rem: "remaining_time ?p > 0"
    by auto
  obtain s' where s': "(if is_running s \<noteq> nx then dispatch s nx else Inr s) = Inr s'"
    using body scan nx by (auto simp: priority_body_def split: sum.splits)
  have t': "current_time s' = ?t" and c': "completed s' = completed s"
    and tmp': "temp s' = temp s \<or>
        temp s' = (temp s)[nat nx := ?p\<lparr>start_time := ?t,
           response_time := int32 (?t - arrival_time ?p)\<rparr>]"
    using s' dispatch_result [of s nx s'] by (auto split: if_splits)
  then obtain a b where q: "temp s' = (temp s)[nat nx := ?p\<lparr>start_time := a, response_time := b\<rparr>]"
  proof (cases "temp s' = temp s")
    case True
    then have "temp s' = (temp s)[nat nx := ?p\<lparr>start_time := start_time ?p,
                 response_time := response_time ?p\<rparr>]" by simp
    then show ?thesis by (rule that)
  next
    case False
    with tmp' show ?thesis by (auto intro: that)
  qed
  let ?q = "?p\<lparr>start_time := a, response_time := b\<rparr>"
  have nth': "temp s' ! nat nx = ?q" using q rng by simp
  let ?r = "?q\<lparr>remaining_time := remaining_time ?q - 1\<rparr>"
  let ?s2 = "s'\<lparr>temp := (temp s')[nat nx := ?r],
                current_time := int32 (current_time s' + 1)\<rparr>"
  have nth2: "temp ?s2 ! nat nx = ?r" using rng q by simp
  have fin: "(if remaining_time ?r = 0 then finish ?s2 nx else Inr ?s2) = Inr s1"
    using body scan nx s' nth' nth2 by (simp add: priority_body_def Let_def)
  show ?thesis
  proof (cases "remaining_time ?p = 1")
    case False
    with fin have "s1 = ?s2" by simp
    with False rng arr rem t' c' q show ?thesis
      by (intro exI [of _ a] exI [of _ b]) simp
  next
    case True
    with fin have "finish ?s2 nx = Inr s1" by simp
    from finish_result [OF this] True rng arr rem t' c' q show ?thesis
      by (intro exI [of _ a] exI [of _ b]) simp
  qed
qed

lemma priority_body_step:
  assumes body: "priority_body s = Inr s1"
  shows "s1 = s\<lparr>current_time := int32 (current_time s + 1)\<rparr> \<or>
    (\<exists>nx a b. 0 \<le> nx \<and> nat nx < length (temp s) \<and>
       arrival_time (temp s ! nat nx) \<le> current_time s \<and>
       0 < remaining_time (temp s ! nat nx) \<and>
       current_time s1 = int32 (current_time s + 1) \<and>
       (if remaining_time (temp s ! nat nx) = 1
        then completed s1 = completed s + 1 \<and>
             temp s1 = (temp s)[nat nx := (temp s ! nat nx)
               \<lparr>start_time := a, response_time := b, remaining_time := 0,
                completion_time := int32 (current_time s + 1),
                turnaround_time :=
                  int32 (int32 (current_time s + 1) - arrival_time (temp s ! nat nx)),
                waiting_time :=
                  int32 (int32 (int32 (current_time s + 1) - arrival_time (temp s ! nat nx))
                           - burst_time (temp s ! nat nx))\<rparr>]
        else completed s1 = completed s \<and>
             temp s1 = (temp s)[nat nx := (temp s ! nat nx)
               \<lparr>start_time := a, response_time := b,
                remaining_time := remaining_time (temp s ! nat nx) - 1\<rparr>]))"
proof -
  let ?t = "current_time s"
  obtain nx hp where scan: "priority_scan ?t (temp s) 0 (-1, 999) = (nx, hp)"
    by (cases "priority_scan ?t (temp s) 0 (-1, 999)")
  show ?thesis
  proof (cases "nx = -1")
    case True
    with scan body show ?thesis by (simp add: priority_body_def)
  next
    case False
    from priority_body_at [OF body scan False] show ?thesis by blast
  qed
qed

lemma sched_inv_init:
  assumes "valid_registry reg" and "temp s = reg" and "current_time s = 0" and "completed s = 0"
  shows "sched_inv reg s"
proof -
  have *: "job_inv 0 p \<and> remaining_time p \<noteq> 0" if "p \<in> set reg" for p
  proof -
    from that assms(1) have i: "initialised p" and v: "valid_job p"
      by (auto simp: valid_registry_def)
    from initialised_fields [OF i]
    have "remaining_time p = burst_time p" "completion_time p = 0" by simp_all
    with v show ?thesis by (auto simp: job_inv_def valid_job_def is_complete_def)
  qed
  then have "filter (\<lambda>p. remaining_time p = 0) reg = []" by (auto simp: filter_empty_conv)
  with * assms(2-) show ?thesis by (simp add: sched_inv_def jobs_inv_def done_count_def)
qed

lemma sched_inv_idle:
  assumes "sched_inv reg s" and "temp s1 = temp s" and "completed s1 = completed s"
    and "current_time s \<le> current_time s1"
  shows "sched_inv reg s1"
  using assms jobs_inv_later [of "current_time s" "temp s" "current_time s1"]
  by (simp add: sched_inv_def)

text \<open>The job at index \<open>i\<close> is served for \<open>e\<close> units, which is not all that it needs.\<close>

lemma sched_inv_served:
  assumes inv: "sched_inv reg s" and i: "i < length (temp s)"
    and arr: "arrival_time (temp s ! i) \<le> current_time s"
    and e: "0 < e" "e < remaining_time (temp s ! i)"
    and t: "current_time s1 = current_time s + e" and c: "completed s1 = completed s"
    and tmp: "temp s1 = (temp s)[i := (temp s ! i)\<lparr>start_time := a, response_time := b,
                remaining_time := remaining_time (temp s ! i) - e\<rparr>]"
  shows "sched_inv reg s1"
proof -
  let ?p = "temp s ! i"
  let ?q = "?p\<lparr>start_time := a, response_time := b, remaining_time := remaining_time ?p - e\<rparr>"
  from inv have j: "jobs_inv (current_time s) (temp s)"
    and d: "map descriptor (temp s) = map descriptor reg"
    and k: "completed s = int (done_count (temp s))"
    by (simp_all add: sched_inv_def)
  have "job_inv (current_time s + e) ?q"
    using job_inv_served [OF jobs_inv_nth [OF j i] arr e] .
  moreover from e have "jobs_inv (current_time s + e) (temp s)"
    by (intro jobs_inv_later [OF j]) simp
  ultimately have "jobs_inv (current_time s + e) ((temp s)[i := ?q])"
    by (intro jobs_inv_update)
  moreover have "map descriptor ((temp s)[i := ?q]) = map descriptor reg"
    using d by (simp add: map_descriptor_update descriptor_def)
  moreover have "done_count ((temp s)[i := ?q]) = done_count (temp s)"
    using done_count_update [OF i, of ?q] e by simp
  ultimately show ?thesis using t c tmp k by (simp add: sched_inv_def)
qed

text \<open>The job at index \<open>i\<close> is served for all the \<open>e\<close> units that it needs, and completes.\<close>

lemma sched_inv_completed:
  assumes inv: "sched_inv reg s" and i: "i < length (temp s)"
    and arr: "arrival_time (temp s ! i) \<le> current_time s"
    and e: "0 < e" "e = remaining_time (temp s ! i)"
    and t: "current_time s1 = current_time s + e" and c: "completed s1 = completed s + 1"
    and tmp: "temp s1 = (temp s)[i := (temp s ! i)\<lparr>start_time := a, response_time := b,
                remaining_time := 0, completion_time := current_time s + e,
                turnaround_time := current_time s + e - arrival_time (temp s ! i),
                waiting_time := (current_time s + e - arrival_time (temp s ! i))
                                  - burst_time (temp s ! i)\<rparr>]"
  shows "sched_inv reg s1"
proof -
  let ?p = "temp s ! i"
  let ?q = "?p\<lparr>start_time := a, response_time := b,
                remaining_time := 0, completion_time := current_time s + e,
                turnaround_time := current_time s + e - arrival_time ?p,
                waiting_time := (current_time s + e - arrival_time ?p) - burst_time ?p\<rparr>"
  from inv have j: "jobs_inv (current_time s) (temp s)"
    and d: "map descriptor (temp s) = map descriptor reg"
    and k: "completed s = int (done_count (temp s))"
    by (simp_all add: sched_inv_def)
  have "job_inv (current_time s + e) ?q"
    using job_inv_completed [OF jobs_inv_nth [OF j i] arr e] .
  moreover from e have "jobs_inv (current_time s + e) (temp s)"
    by (intro jobs_inv_later [OF j]) simp
  ultimately have "jobs_inv (current_time s + e) ((temp s)[i := ?q])"
    by (intro jobs_inv_update)
  moreover have "map descriptor ((temp s)[i := ?q]) = map descriptor reg"
    using d by (simp add: map_descriptor_update descriptor_def)
  moreover have "done_count ((temp s)[i := ?q]) = done_count (temp s) + 1"
    using done_count_update [OF i, of ?q] e by simp
  ultimately show ?thesis using t c tmp k by (simp add: sched_inv_def)
qed

lemma sched_inv_exit:
  assumes "sched_inv reg s" and "\<not> completed s < int (length (temp s))"
  shows "all_done reg (temp s)"
proof -
  from assms have "length (temp s) \<le> done_count (temp s)" by (simp add: sched_inv_def)
  then have "remaining_time p = 0" if "p \<in> set (temp s)" for p
    using that by (rule done_count_all)
  moreover have "job_inv (current_time s) p" if "p \<in> set (temp s)" for p
    using that assms(1) by (simp add: sched_inv_def jobs_inv_def)
  ultimately have "remaining_time p = 0 \<and> is_complete p \<and> timing_ok p"
    if "p \<in> set (temp s)" for p
    using that by (simp add: job_inv_def)
  moreover have "map descriptor (temp s) = map descriptor reg"
    using assms(1) by (simp add: sched_inv_def)
  ultimately show ?thesis unfolding all_done_def by blast
qed

text \<open>
  The selection loop of \<^verbatim>\<open>priority_scheduling\<close> from index \<open>i\<close> on: the result is the first
  job of least priority number among the eligible ones that beat \<^verbatim>\<open>highest_priority\<close>.
\<close>

lemma priority_scan_least:
  assumes "priority_scan t ps i (nx, hp) = (nx', hp')"
  shows "(nx' = nx \<and> hp' = hp \<or>
          i \<le> nx' \<and> nx' < i + int (length ps) \<and>
          arrival_time (ps ! nat (nx' - i)) \<le> t \<and> 0 < remaining_time (ps ! nat (nx' - i)) \<and>
          hp' = priority (ps ! nat (nx' - i)) \<and> hp' < hp) \<and>
         (\<forall>k < length ps. arrival_time (ps ! k) \<le> t \<and> 0 < remaining_time (ps ! k) \<longrightarrow>
            hp' \<le> priority (ps ! k) \<and>
            (priority (ps ! k) = hp' \<and> hp' < hp \<longrightarrow> nx' \<le> i + int k))"
  using assms
proof (induction ps arbitrary: i nx hp)
  case Nil
  then show ?case by simp
next
  case (Cons p ps)
  let ?c = "arrival_time p \<le> t \<and> remaining_time p > 0 \<and> priority p < hp"
  obtain nx1 hp1 where acc: "(if ?c then (i, priority p) else (nx, hp)) = (nx1, hp1)"
    by (cases "if ?c then (i, priority p) else (nx, hp)") auto
  with Cons.prems(1) have run: "priority_scan t ps (i + 1) (nx1, hp1) = (nx', hp')" by simp
  note IH = Cons.IH [OF run]
  from IH have le: "hp' \<le> hp1" by auto
  from acc have le1: "hp1 \<le> hp" by (auto split: if_splits)
  have sel: "nx' = nx \<and> hp' = hp \<or>
          i \<le> nx' \<and> nx' < i + int (length (p # ps)) \<and>
          arrival_time ((p # ps) ! nat (nx' - i)) \<le> t \<and>
          0 < remaining_time ((p # ps) ! nat (nx' - i)) \<and>
          hp' = priority ((p # ps) ! nat (nx' - i)) \<and> hp' < hp"
  proof (cases "nx' = nx1 \<and> hp' = hp1")
    case True
    with acc show ?thesis by (auto split: if_splits)
  next
    case False
    with IH have in_tail: "i + 1 \<le> nx'" "nx' < i + 1 + int (length ps)"
      "arrival_time (ps ! nat (nx' - (i + 1))) \<le> t"
      "0 < remaining_time (ps ! nat (nx' - (i + 1)))"
      "hp' = priority (ps ! nat (nx' - (i + 1)))" "hp' < hp1"
      by auto
    with le1 nth_Cons_shift [of i nx' p ps] show ?thesis by auto
  qed
  have rest: "hp' \<le> priority ((p # ps) ! k) \<and>
            (priority ((p # ps) ! k) = hp' \<and> hp' < hp \<longrightarrow> nx' \<le> i + int k)"
    if k: "k < length (p # ps)"
      and e: "arrival_time ((p # ps) ! k) \<le> t \<and> 0 < remaining_time ((p # ps) ! k)" for k
  proof (cases k)
    case 0
    with e have e0: "arrival_time p \<le> t" "0 < remaining_time p" by simp_all
    show ?thesis
    proof (cases "priority p < hp")
      case True
      with e0 acc have a1: "nx1 = i" "hp1 = priority p" by auto
      with le IH 0 show ?thesis by auto
    next
      case False
      with acc have "hp1 = hp" by auto
      with le False 0 show ?thesis by auto
    qed
  next
    case (Suc k')
    with k e have k': "k' < length ps"
      and e': "arrival_time (ps ! k') \<le> t \<and> 0 < remaining_time (ps ! k')"
      by simp_all
    with IH have b: "hp' \<le> priority (ps ! k')"
      and c: "priority (ps ! k') = hp' \<and> hp' < hp1 \<longrightarrow> nx' \<le> i + 1 + int k'"
      by auto
    have "nx' \<le> i + int k" if "priority (ps ! k') = hp'" "hp' < hp"
    proof (cases "hp' < hp1")
      case True
      with c that Suc show ?thesis by simp
    next
      case False
      with le have eq: "hp' = hp1" by simp
      with IH have "nx' = nx1" by auto
      moreover from eq that acc have "nx1 = i" by (auto split: if_splits)
      ultimately show ?thesis by simp
    qed
    with b Suc show ?thesis by simp
  qed
  from sel rest show ?case by blast
qed


text \<open>
  With \<open>sched_inv\<close> and \<open>clock_inv\<close>, an iteration that runs a job computes within the range
  of \<^verbatim>\<open>int\<close>: the clock and the timing fields are the exact sums and differences.
\<close>

lemma served_in_range:
  assumes j: "job_inv t p" and arr: "arrival_time p \<le> t"
    and e: "0 < e" "e \<le> remaining_time p" and fit: "t + remaining_time p \<le> INT_MAX"
  shows "int32 (t + e) = t + e" and "int32 (t - arrival_time p) = t - arrival_time p"
    and "int32 (t + e - arrival_time p) = t + e - arrival_time p"
    and "e = remaining_time p \<Longrightarrow>
           int32 (t + e - arrival_time p - burst_time p) = t + e - arrival_time p - burst_time p"
proof -
  from j have a: "0 \<le> arrival_time p" and b: "remaining_time p \<le> burst_time p"
    and s: "remaining_time p < burst_time p \<longrightarrow>
              arrival_time p + (burst_time p - remaining_time p) \<le> t"
    by (simp_all add: job_inv_def valid_job_def)
  from a arr e fit show "int32 (t + e) = t + e" by (intro int32_id) simp_all
  from a arr e fit show "int32 (t - arrival_time p) = t - arrival_time p"
    by (intro int32_id) simp_all
  from a arr e fit show "int32 (t + e - arrival_time p) = t + e - arrival_time p"
    by (intro int32_id) simp_all
  show "int32 (t + e - arrival_time p - burst_time p) = t + e - arrival_time p - burst_time p"
    if "e = remaining_time p"
    using that a arr e fit b s by (intro int32_id) auto
qed

lemma clock_inv_room:
  assumes "clock_inv reg s" and "i < length (temp s)" and "0 \<le> remaining_time (temp s ! i)"
  shows "0 \<le> current_time s" and "current_time s + remaining_time (temp s ! i) \<le> INT_MAX"
    and "last_arrival reg \<le> INT_MAX"
proof -
  from work_left_nth [OF assms(2)] assms(3)
  have "remaining_time (temp s ! i) \<le> int (work_left (temp s))" by simp
  with assms(1) show "0 \<le> current_time s"
    and "current_time s + remaining_time (temp s ! i) \<le> INT_MAX"
    and "last_arrival reg \<le> INT_MAX"
    by (auto simp: clock_inv_def)
qed

text \<open>The clock after the job at index \<open>i\<close> has been served for \<open>e\<close> units.\<close>

lemma clock_inv_served:
  assumes clock: "clock_inv reg s" and i: "i < length (temp s)"
    and e: "0 < e" "e \<le> remaining_time (temp s ! i)"
    and t: "current_time s1 = current_time s + e"
    and tmp: "temp s1 = (temp s)[i := q]" and q: "remaining_time q = remaining_time (temp s ! i) - e"
  shows "clock_inv reg s1"
proof -
  from work_left_served [OF i, of q] e q tmp
  have "int (work_left (temp s1)) = int (work_left (temp s)) - e" by simp
  with clock t e show ?thesis by (auto simp: clock_inv_def max_def split: if_splits)
qed

lemma priority_body_exact:
  assumes body: "priority_body s = Inr s1"
    and scan: "priority_scan (current_time s) (temp s) 0 (-1, 999) = (nx, hp)"
    and nx: "nx \<noteq> -1"
    and inv: "sched_inv reg s" and clock: "clock_inv reg s"
  shows "\<exists>a b. 0 \<le> nx \<and> nat nx < length (temp s) \<and>
       arrival_time (temp s ! nat nx) \<le> current_time s \<and>
       0 < remaining_time (temp s ! nat nx) \<and>
       current_time s1 = current_time s + 1 \<and>
       (if remaining_time (temp s ! nat nx) = 1
        then completed s1 = completed s + 1 \<and>
             temp s1 = (temp s)[nat nx := (temp s ! nat nx)
               \<lparr>start_time := a, response_time := b, remaining_time := 0,
                completion_time := current_time s + 1,
                turnaround_time := current_time s + 1 - arrival_time (temp s ! nat nx),
                waiting_time := (current_time s + 1 - arrival_time (temp s ! nat nx))
                                  - burst_time (temp s ! nat nx)\<rparr>]
        else completed s1 = completed s \<and>
             temp s1 = (temp s)[nat nx := (temp s ! nat nx)
               \<lparr>start_time := a, response_time := b,
                remaining_time := remaining_time (temp s ! nat nx) - 1\<rparr>])"
    and "clock_inv reg s1"
proof -
  let ?t = "current_time s"
  let ?p = "temp s ! nat nx"
  from priority_body_at [OF body scan nx]
  obtain a b where rng: "0 \<le> nx" "nat nx < length (temp s)"
    and arr: "arrival_time ?p \<le> ?t" and rem: "0 < remaining_time ?p"
    and t1: "current_time s1 = int32 (?t + 1)"
    and rest: "if remaining_time ?p = 1
        then completed s1 = completed s + 1 \<and>
             temp s1 = (temp s)[nat nx := ?p
               \<lparr>start_time := a, response_time := b, remaining_time := 0,
                completion_time := int32 (?t + 1),
                turnaround_time := int32 (int32 (?t + 1) - arrival_time ?p),
                waiting_time :=
                  int32 (int32 (int32 (?t + 1) - arrival_time ?p) - burst_time ?p)\<rparr>]
        else completed s1 = completed s \<and>
             temp s1 = (temp s)[nat nx := ?p
               \<lparr>start_time := a, response_time := b,
                remaining_time := remaining_time ?p - 1\<rparr>]"
    by blast
  from inv rng(2) have j: "job_inv ?t ?p" by (simp add: sched_inv_def jobs_inv_def)
  from clock_inv_room [OF clock rng(2)] rem
  have fit: "?t + remaining_time ?p \<le> INT_MAX" by simp
  from rem have e: "(0::int) < 1" "1 \<le> remaining_time ?p" by simp_all
  note r = served_in_range [OF j arr e fit]
  from t1 r(1) have t1': "current_time s1 = ?t + 1" by simp
  have rest': "if remaining_time ?p = 1
        then completed s1 = completed s + 1 \<and>
             temp s1 = (temp s)[nat nx := ?p
               \<lparr>start_time := a, response_time := b, remaining_time := 0,
                completion_time := ?t + 1,
                turnaround_time := ?t + 1 - arrival_time ?p,
                waiting_time := (?t + 1 - arrival_time ?p) - burst_time ?p\<rparr>]
        else completed s1 = completed s \<and>
             temp s1 = (temp s)[nat nx := ?p
               \<lparr>start_time := a, response_time := b,
                remaining_time := remaining_time ?p - 1\<rparr>]"
  proof (cases "remaining_time ?p = 1")
    case True
    with r(4) have "int32 (?t + 1 - arrival_time ?p - burst_time ?p) =
        ?t + 1 - arrival_time ?p - burst_time ?p"
      by simp
    with rest True r(1,3) show ?thesis by simp
  next
    case False
    with rest show ?thesis by simp
  qed
  from rng arr rem t1' rest' show "\<exists>a b. 0 \<le> nx \<and> nat nx < length (temp s) \<and>
       arrival_time ?p \<le> ?t \<and> 0 < remaining_time ?p \<and>
       current_time s1 = ?t + 1 \<and>
       (if remaining_time ?p = 1
        then completed s1 = completed s + 1 \<and>
             temp s1 = (temp s)[nat nx := ?p
               \<lparr>start_time := a, response_time := b, remaining_time := 0,
                completion_time := ?t + 1,
                turnaround_time := ?t + 1 - arrival_time ?p,
                waiting_time := (?t + 1 - arrival_time ?p) - burst_time ?p\<rparr>]
        else completed s1 = completed s \<and>
             temp s1 = (temp s)[nat nx := ?p
               \<lparr>start_time := a, response_time := b,
                remaining_time := remaining_time ?p - 1\<rparr>])"
    by blast
  from rest' obtain q where "temp s1 = (temp s)[nat nx := q]"
    and "remaining_time q = remaining_time ?p - 1"
    by (auto split: if_splits)
  from clock_inv_served [OF clock rng(2) e t1' this] show "clock_inv reg s1" .
qed

text \<open>
  An idle tick while jobs are left and none is passed over: a job is still to arrive, so
  the clock stays below the latest arrival.
\<close>

lemma priority_body_idle_exact:
  assumes scan: "priority_scan (current_time s) (temp s) 0 (-1, 999) = (nx, hp)"
    and nx: "nx = -1" and more: "completed s < int (length (temp s))"
    and inv: "sched_inv reg s" and clock: "clock_inv reg s" and none: "\<not> passed_over s"
  shows "priority_body s = Inr (s\<lparr>current_time := current_time s + 1\<rparr>)"
    and "current_time s < last_arrival reg"
proof -
  let ?t = "current_time s"
  from inv have d: "map descriptor (temp s) = map descriptor reg"
    and k: "completed s = int (done_count (temp s))"
    and ji: "jobs_inv ?t (temp s)"
    by (simp_all add: sched_inv_def)
  from more k have "done_count (temp s) < length (temp s)" by simp
  from done_count_less [OF this]
  obtain j where j: "j < length (temp s)" and rem: "remaining_time (temp s ! j) \<noteq> 0"
    by blast
  from ji j have "0 \<le> remaining_time (temp s ! j)" by (simp add: jobs_inv_def job_inv_def)
  with rem have pos: "0 < remaining_time (temp s ! j)" by simp
  with none j have low: "priority (temp s ! j) < 999" by (auto simp: passed_over_def)
  from priority_scan_least [OF scan, simplified] nx
  have "hp = 999"
    and "\<forall>k < length (temp s).
        arrival_time (temp s ! k) \<le> ?t \<and> 0 < remaining_time (temp s ! k) \<longrightarrow>
        hp \<le> priority (temp s ! k)"
    by auto
  with j pos low have "?t < arrival_time (temp s ! j)" by force
  moreover from descriptor_nth [OF d j] have "arrival_time (temp s ! j) \<le> last_arrival reg"
    by (auto intro: last_arrival_ge)
  ultimately show lt: "?t < last_arrival reg" by simp
  from clock have "0 \<le> ?t" "last_arrival reg \<le> INT_MAX" by (auto simp: clock_inv_def)
  with lt have "int32 (?t + 1) = ?t + 1" by (intro int32_id) simp_all
  with scan nx show "priority_body s = Inr (s\<lparr>current_time := ?t + 1\<rparr>)"
    by (simp add: priority_body_def)
qed

text \<open>Whatever the clock does, \<^verbatim>\<open>completed\<close> counts the jobs with no service left.\<close>

lemma priority_body_count:
  assumes body: "priority_body s = Inr s1" and k: "completed s = int (done_count (temp s))"
  shows "completed s1 = int (done_count (temp s1))"
  using priority_body_step [OF body]
proof (elim disjE exE conjE)
  assume "s1 = s\<lparr>current_time := int32 (current_time s + 1)\<rparr>"
  with k show ?thesis by simp
next
  fix nx a b
  let ?p = "temp s ! nat nx"
  assume rng: "nat nx < length (temp s)" and rem: "0 < remaining_time ?p"
    and rest: "if remaining_time ?p = 1
        then completed s1 = completed s + 1 \<and>
             temp s1 = (temp s)[nat nx := ?p
               \<lparr>start_time := a, response_time := b, remaining_time := 0,
                completion_time := int32 (current_time s + 1),
                turnaround_time := int32 (int32 (current_time s + 1) - arrival_time ?p),
                waiting_time :=
                  int32 (int32 (int32 (current_time s + 1) - arrival_time ?p)
                           - burst_time ?p)\<rparr>]
        else completed s1 = completed s \<and>
             temp s1 = (temp s)[nat nx := ?p
               \<lparr>start_time := a, response_time := b,
                remaining_time := remaining_time ?p - 1\<rparr>]"
  show ?thesis
  proof (cases "remaining_time ?p = 1")
    case True
    with rest obtain q where "temp s1 = (temp s)[nat nx := q]" "remaining_time q = 0"
      and c: "completed s1 = completed s + 1"
      by auto
    with done_count_update [OF rng, of q] rem k show ?thesis by simp
  next
    case False
    with rest obtain q where "temp s1 = (temp s)[nat nx := q]"
      "remaining_time q = remaining_time ?p - 1"
      and c: "completed s1 = completed s"
      by auto
    with done_count_update [OF rng, of q] rem False k show ?thesis by simp
  qed
qed

text \<open>A job that is passed over stays so: the selection loop never takes it.\<close>

lemma priority_body_passed_over:
  assumes body: "priority_body s = Inr s1" and po: "passed_over s"
  shows "passed_over s1"
proof -
  let ?t = "current_time s"
  obtain nx hp where scan: "priority_scan ?t (temp s) 0 (-1, 999) = (nx, hp)"
    by (cases "priority_scan ?t (temp s) 0 (-1, 999)")
  from po obtain j where j: "j < length (temp s)" "0 < remaining_time (temp s ! j)"
    "999 \<le> priority (temp s ! j)"
    by (auto simp: passed_over_def)
  show ?thesis
  proof (cases "nx = -1")
    case True
    with scan body have "temp s1 = temp s" by (auto simp: priority_body_def)
    with po show ?thesis by (simp add: passed_over_def)
  next
    case False
    from priority_scan_least [OF scan, simplified] False
    have low: "priority (temp s ! nat nx) < 999" by auto
    from priority_body_at [OF body scan False]
    obtain q where tmp: "temp s1 = (temp s)[nat nx := q]" by (auto split: if_splits)
    from low j(3) have "j \<noteq> nat nx" by auto
    with tmp j have "j < length (temp s1)" "temp s1 ! j = temp s ! j" by simp_all
    with j show ?thesis unfolding passed_over_def by auto
  qed
qed

lemma priority_body_inv:
  assumes inv: "sched_inv reg s" and clock: "clock_inv reg s"
    and none: "\<not> passed_over s" and more: "completed s < int (length (temp s))"
    and body: "priority_body s = Inr s1"
  shows "sched_inv reg s1 \<and> clock_inv reg s1"
proof -
  let ?t = "current_time s"
  obtain nx hp where scan: "priority_scan ?t (temp s) 0 (-1, 999) = (nx, hp)"
    by (cases "priority_scan ?t (temp s) 0 (-1, 999)")
  show ?thesis
  proof (cases "nx = -1")
    case True
    note idle = priority_body_idle_exact [OF scan True more inv clock none]
    from idle(1) body have s1: "s1 = s\<lparr>current_time := ?t + 1\<rparr>" by simp
    then have "sched_inv reg s1" by (intro sched_inv_idle [OF inv]) simp_all
    moreover from clock idle(2) s1 have "clock_inv reg s1"
      by (auto simp: clock_inv_def max_def)
    ultimately show ?thesis ..
  next
    case False
    note ex = priority_body_exact [OF body scan False inv clock]
    let ?p = "temp s ! nat nx"
    from ex(1) obtain a b where rng: "nat nx < length (temp s)"
      and arr: "arrival_time ?p \<le> ?t"
      and rem: "0 < remaining_time ?p" and t: "current_time s1 = ?t + 1"
      and rest: "if remaining_time ?p = 1
        then completed s1 = completed s + 1 \<and>
             temp s1 = (temp s)[nat nx := ?p
               \<lparr>start_time := a, response_time := b, remaining_time := 0,
                completion_time := ?t + 1,
                turnaround_time := ?t + 1 - arrival_time ?p,
                waiting_time := (?t + 1 - arrival_time ?p) - burst_time ?p\<rparr>]
        else completed s1 = completed s \<and>
             temp s1 = (temp s)[nat nx := ?p
               \<lparr>start_time := a, response_time := b,
                remaining_time := remaining_time ?p - 1\<rparr>]"
      by blast
    have "sched_inv reg s1"
    proof (cases "remaining_time ?p = 1")
      case True
      with rest show ?thesis
        by (intro sched_inv_completed [OF inv rng arr _ _ t, where a = a and b = b]) simp_all
    next
      case False
      with rest rem show ?thesis
        by (intro sched_inv_served [OF inv rng arr _ _ t, where a = a and b = b]) simp_all
    qed
    with ex(2) show ?thesis by simp
  qed
qed

lemma priority_body_run_inv:
  assumes inv: "priority_run_inv reg s" and more: "completed s < int (length (temp s))"
    and body: "priority_body s = Inr s1"
  shows "priority_run_inv reg s1"
proof -
  from inv have k: "completed s = int (done_count (temp s))"
    and or: "passed_over s \<or> sched_inv reg s \<and> clock_inv reg s"
    by (simp_all add: priority_run_inv_def)
  note k1 = priority_body_count [OF body k]
  show ?thesis
  proof (cases "passed_over s")
    case True
    from priority_body_passed_over [OF body True] k1 show ?thesis
      by (simp add: priority_run_inv_def)
  next
    case False
    with or have "sched_inv reg s" "clock_inv reg s" by simp_all
    from priority_body_inv [OF this False more body] k1 show ?thesis
      by (simp add: priority_run_inv_def)
  qed
qed

lemma priority_run_inv_exit:
  assumes "priority_run_inv reg s" and "\<not> completed s < int (length (temp s))"
  shows "all_done reg (temp s)"
proof -
  from assms have "length (temp s) \<le> done_count (temp s)"
    by (simp add: priority_run_inv_def)
  then have "remaining_time (temp s ! j) = 0" if "j < length (temp s)" for j
    using that by (intro done_count_all [of "temp s"]) simp_all
  then have "\<not> passed_over s" by (auto simp: passed_over_def)
  with assms(1) have "sched_inv reg s" by (simp add: priority_run_inv_def)
  from sched_inv_exit [OF this assms(2)] show ?thesis .
qed

lemma priority_scheduling_all_done:
  assumes "valid_registry reg" and "clock_fits reg"
    and "priority_scheduling reg = Some (Inr (m, out, evs))"
  shows "all_done reg out"
proof -
  let ?s0 = "\<lparr>temp = reg, current_time = 0, completed = 0, switches = 0,
              is_running = -1, events = []\<rparr>"
  from assms(1) have "copy_in reg = Inr reg"
    by (simp add: copy_in_def valid_registry_def)
  with assms(3) obtain s where run: "priority_loop ?s0 = Some (Inr s)" and out: "out = temp s"
    by (cases "priority_loop ?s0") (auto simp: priority_scheduling_def split: sum.splits)
  have si: "sched_inv reg ?s0" using assms(1) by (intro sched_inv_init) simp_all
  moreover have "clock_inv reg ?s0" using assms(1,2) by (intro clock_inv_init) simp_all
  ultimately have "priority_run_inv reg ?s0"
    by (simp add: priority_run_inv_def sched_inv_def)
  from priority_loop_invariant [OF run, of "priority_run_inv reg", OF this]
    priority_body_run_inv
  have "priority_run_inv reg s \<and> \<not> completed s < int (length (temp s))" by blast
  then have "all_done reg (temp s)" by (intro priority_run_inv_exit) simp_all
  with out show ?thesis by simp
qed

subsection \<open>First come first served\<close>

lemma fcfs_body_result:
  assumes "fcfs_body t p = (t', p')"
  shows "t' = int32 (max t (arrival_time p) + burst_time p) \<and>
         p' = p\<lparr>start_time := max t (arrival_time p),
                response_time := int32 (max t (arrival_time p) - arrival_time p),
                completion_time := t',
                turnaround_time := int32 (t' - arrival_time p),
                waiting_time := int32 (int32 (t' - arrival_time p) - burst_time p),
                remaining_time := 0\<rparr>"
  using assms by (auto simp: fcfs_body_def Let_def max_def)

lemma fcfs_body_descriptor: "fcfs_body t p = (t', p') \<Longrightarrow> descriptor p' = descriptor p"
  by (auto simp: fcfs_body_def Let_def descriptor_def)

text \<open>A valid job that is served within the range of \<^verbatim>\<open>int\<close>.\<close>

lemma fcfs_body_valid:
  assumes body: "fcfs_body t p = (t', p')" and v: "valid_job p" and t: "0 \<le> t"
    and fit: "max t (arrival_time p) + burst_time p \<le> INT_MAX"
  shows "t' = max t (arrival_time p) + burst_time p \<and>
         remaining_time p' = 0 \<and> is_complete p' \<and> timing_ok p'"
proof -
  let ?t1 = "max t (arrival_time p)"
  from v have a: "0 \<le> arrival_time p" and b: "0 < burst_time p" by (simp_all add: valid_job_def)
  from a b t fit have 1: "int32 (?t1 + burst_time p) = ?t1 + burst_time p"
    by (intro int32_id) simp_all
  from a b t fit have 2: "int32 (?t1 + burst_time p - arrival_time p) =
      ?t1 + burst_time p - arrival_time p"
    by (intro int32_id) simp_all
  from a b t fit have 3: "int32 (?t1 + burst_time p - arrival_time p - burst_time p) =
      ?t1 + burst_time p - arrival_time p - burst_time p"
    by (intro int32_id) simp_all
  from fcfs_body_result [OF body] 1 2 3 a b t show ?thesis
    by (simp add: is_complete_def timing_ok_def)
qed

lemma fcfs_loop_descriptor:
  "fcfs_loop t cs ps fin = (t', cs', out) \<Longrightarrow>
     map descriptor out = map descriptor fin @ map descriptor ps \<and>
     cs' = cs + int (length ps)"
proof (induction ps arbitrary: t cs fin)
  case Nil
  then show ?case by simp
next
  case (Cons p ps)
  obtain t1 p1 where b: "fcfs_body t p = (t1, p1)" by (cases "fcfs_body t p")
  with Cons.prems have "fcfs_loop t1 (cs + 1) ps (fin @ [p1]) = (t', cs', out)" by simp
  from Cons.IH [OF this] fcfs_body_descriptor [OF b] show ?case by simp
qed

lemma fcfs_loop_valid:
  assumes "fcfs_loop t cs ps fin = (t', cs', out)"
    and "\<forall>p \<in> set ps. valid_job p \<and> arrival_time p \<le> l" and "0 \<le> t"
    and "max t l + sum_list (map burst_time ps) \<le> INT_MAX"
    and "\<forall>p \<in> set fin. remaining_time p = 0 \<and> is_complete p \<and> timing_ok p"
  shows "\<forall>p \<in> set out. remaining_time p = 0 \<and> is_complete p \<and> timing_ok p"
  using assms
proof (induction ps arbitrary: t cs fin)
  case Nil
  then show ?case by simp
next
  case (Cons p ps)
  obtain t1 p1 where b: "fcfs_body t p = (t1, p1)" by (cases "fcfs_body t p")
  with Cons.prems(1) have run: "fcfs_loop t1 (cs + 1) ps (fin @ [p1]) = (t', cs', out)" by simp
  from Cons.prems(2) have v: "valid_job p" and al: "arrival_time p \<le> l" by simp_all
  from v have pos: "0 < burst_time p" by (simp add: valid_job_def)
  have rest: "0 \<le> sum_list (map burst_time ps)"
    using Cons.prems(2) by (intro sum_list_nonneg) (auto simp: valid_job_def intro: less_imp_le)
  from al Cons.prems(4) rest have fit: "max t (arrival_time p) + burst_time p \<le> INT_MAX"
    by (simp add: max_def split: if_splits)
  from fcfs_body_valid [OF b v Cons.prems(3) fit]
  have p1: "t1 = max t (arrival_time p) + burst_time p"
    "remaining_time p1 = 0 \<and> is_complete p1 \<and> timing_ok p1"
    by simp_all
  show ?case
  proof (rule Cons.IH [OF run])
    from Cons.prems(2) show "\<forall>p \<in> set ps. valid_job p \<and> arrival_time p \<le> l" by simp
    from p1(1) pos Cons.prems(3) show "0 \<le> t1" by simp
    from p1(1) al pos Cons.prems(4) show "max t1 l + sum_list (map burst_time ps) \<le> INT_MAX"
      by (auto simp: max_def split: if_splits)
    from Cons.prems(5) p1(2)
    show "\<forall>p \<in> set (fin @ [p1]). remaining_time p = 0 \<and> is_complete p \<and> timing_ok p"
      by auto
  qed
qed

lemma fcfs_scheduling_returns:
  assumes "length reg \<le> MAX_PROCESSES"
  shows "\<exists>m out. fcfs_scheduling reg = Inr (m, out) \<and>
           context_switches m = int (length reg) \<and> map descriptor out = map descriptor reg"
proof -
  obtain t cs out where l: "fcfs_loop 0 0 reg [] = (t, cs, out)"
    by (cases "fcfs_loop 0 0 reg []")
  from fcfs_loop_descriptor [OF l] assms l show ?thesis
    by (simp add: fcfs_scheduling_def copy_in_def)
qed

lemma fcfs_scheduling_all_done:
  assumes "valid_registry reg" and "clock_fits reg" and "fcfs_scheduling reg = Inr (m, out)"
  shows "all_done reg out"
proof -
  obtain t cs out' where l: "fcfs_loop 0 0 reg [] = (t, cs, out')"
    by (cases "fcfs_loop 0 0 reg []")
  with assms have out: "out' = out"
    by (simp add: fcfs_scheduling_def copy_in_def valid_registry_def)
  from assms(1) have v: "\<forall>p \<in> set reg. valid_job p \<and> arrival_time p \<le> last_arrival reg"
    by (simp add: valid_registry_def last_arrival_ge)
  from assms(2) last_arrival_nonneg [of reg]
  have "max 0 (last_arrival reg) + sum_list (map burst_time reg) \<le> INT_MAX"
    by (simp add: clock_fits_def)
  from fcfs_loop_valid [OF l v _ this] fcfs_loop_descriptor [OF l] out
  show ?thesis by (simp add: all_done_def)
qed

subsection \<open>Shortest job first\<close>

lemma sjf_loop_invariant:
  assumes run: "sjf_loop s = Some s'"
    and init: "I s"
    and step: "\<And>a. I a \<Longrightarrow> completed a < int (length (temp a)) \<Longrightarrow> I (sjf_body a)"
  shows "I s' \<and> \<not> completed s' < int (length (temp s'))"
proof -
  have "I s \<longrightarrow> I s' \<and> \<not> completed s' < int (length (temp s'))"
  proof (rule sjf_loop.raw_induct
      [where P = "\<lambda>s r. I s \<longrightarrow> I r \<and> \<not> completed r < int (length (temp r))", OF _ run])
    fix f :: "sstate \<Rightarrow> sstate option" and a r
    assume IH: "\<And>x y. f x = Some y \<Longrightarrow> I x \<longrightarrow> I y \<and> \<not> completed y < int (length (temp y))"
      and eq: "(if completed a < int (length (temp a)) then f (sjf_body a) else Some a) = Some r"
    show "I a \<longrightarrow> I r \<and> \<not> completed r < int (length (temp r))"
    proof (cases "completed a < int (length (temp a))")
      case False
      with eq show ?thesis by auto
    next
      case True
      with eq have "f (sjf_body a) = Some r" by simp
      from IH [OF this] step [OF _ True] show ?thesis by blast
    qed
  qed
  with init show ?thesis by blast
qed

text \<open>
  The selection loop from index \<open>i\<close> on, where \<open>ps\<close> is \<open>temp[i..n)\<close>: the result is the
  first job of least burst time among the eligible ones that beat \<open>shortest\<close>.
\<close>

lemma sjf_scan_result:
  assumes "sjf_scan t isc ps i (nx, sh) = (nx', sh')" and "0 \<le> i"
  shows "(nx' = nx \<and> sh' = sh \<or>
          i \<le> nx' \<and> nx' < i + int (length ps) \<and>
          arrival_time (ps ! nat (nx' - i)) \<le> t \<and> isc ! nat nx' = 0 \<and>
          sh' = burst_time (ps ! nat (nx' - i)) \<and> sh' < sh) \<and>
         (\<forall>k < length ps. arrival_time (ps ! k) \<le> t \<and> isc ! nat (i + int k) = 0 \<longrightarrow>
            sh' \<le> burst_time (ps ! k) \<and>
            (burst_time (ps ! k) = sh' \<and> sh' < sh \<longrightarrow> nx' \<le> i + int k))"
  using assms
proof (induction ps arbitrary: i nx sh)
  case Nil
  then show ?case by simp
next
  case (Cons p ps)
  let ?c = "arrival_time p \<le> t \<and> isc ! nat i = 0 \<and> burst_time p < sh"
  obtain nx1 sh1 where acc: "(if ?c then (i, burst_time p) else (nx, sh)) = (nx1, sh1)"
    by (cases "if ?c then (i, burst_time p) else (nx, sh)") auto
  with Cons.prems(1) have run: "sjf_scan t isc ps (i + 1) (nx1, sh1) = (nx', sh')" by simp
  from Cons.prems(2) have i1: "0 \<le> i + 1" by simp
  note IH = Cons.IH [OF run i1]
  from IH have le: "sh' \<le> sh1" by auto
  from acc have le1: "sh1 \<le> sh" by (auto split: if_splits)
  have sel: "nx' = nx \<and> sh' = sh \<or>
          i \<le> nx' \<and> nx' < i + int (length (p # ps)) \<and>
          arrival_time ((p # ps) ! nat (nx' - i)) \<le> t \<and> isc ! nat nx' = 0 \<and>
          sh' = burst_time ((p # ps) ! nat (nx' - i)) \<and> sh' < sh"
  proof (cases "nx' = nx1 \<and> sh' = sh1")
    case True
    with acc show ?thesis by (auto split: if_splits)
  next
    case False
    with IH have in_tail: "i + 1 \<le> nx'" "nx' < i + 1 + int (length ps)"
      "arrival_time (ps ! nat (nx' - (i + 1))) \<le> t" "isc ! nat nx' = 0"
      "sh' = burst_time (ps ! nat (nx' - (i + 1)))" "sh' < sh1"
      by auto
    with le1 nth_Cons_shift [of i nx' p ps] show ?thesis by auto
  qed
  have rest: "sh' \<le> burst_time ((p # ps) ! k) \<and>
            (burst_time ((p # ps) ! k) = sh' \<and> sh' < sh \<longrightarrow> nx' \<le> i + int k)"
    if k: "k < length (p # ps)"
      and e: "arrival_time ((p # ps) ! k) \<le> t \<and> isc ! nat (i + int k) = 0" for k
  proof (cases k)
    case 0
    with e have e0: "arrival_time p \<le> t" "isc ! nat i = 0" by simp_all
    show ?thesis
    proof (cases "burst_time p < sh")
      case True
      with e0 acc have a1: "nx1 = i" "sh1 = burst_time p" by auto
      with le IH 0 show ?thesis by auto
    next
      case False
      with acc have "sh1 = sh" by auto
      with le False 0 show ?thesis by auto
    qed
  next
    case (Suc k')
    with k e have k': "k' < length ps"
      and e': "arrival_time (ps ! k') \<le> t \<and> isc ! nat (i + 1 + int k') = 0"
      by (simp_all add: add.commute add.left_commute)
    with IH have b: "sh' \<le> burst_time (ps ! k')"
      and c: "burst_time (ps ! k') = sh' \<and> sh' < sh1 \<longrightarrow> nx' \<le> i + 1 + int k'"
      by auto
    have "nx' \<le> i + int k" if "burst_time (ps ! k') = sh'" "sh' < sh"
    proof (cases "sh' < sh1")
      case True
      with c that Suc show ?thesis by simp
    next
      case False
      with le have eq: "sh' = sh1" by simp
      with IH have "nx' = nx1" by auto
      moreover from eq that acc have "nx1 = i" by (auto split: if_splits)
      ultimately show ?thesis by simp
    qed
    with b Suc show ?thesis by simp
  qed
  from sel rest show ?case by blast
qed


text \<open>One iteration of the loop of \<^verbatim>\<open>sjf_scheduling\<close>, by the outcome of the selection.\<close>

lemma sjf_body_idle:
  assumes "sjf_scan (current_time s) (is_completed s) (temp s) 0 (-1, 999999) = (nx, sh)"
    and "nx = -1"
  shows "sjf_body s = s\<lparr>current_time := int32 (current_time s + 1)\<rparr>"
  using assms by (simp add: sjf_body_def)

lemma sjf_body_dispatch:
  assumes scan: "sjf_scan (current_time s) (is_completed s) (temp s) 0 (-1, 999999) = (nx, sh)"
    and nx: "nx \<noteq> -1"
  shows "0 \<le> nx \<and> sjf_eligible s (nat nx) \<and>
    (\<forall>j. sjf_eligible s j \<longrightarrow>
       burst_time (temp s ! nat nx) \<le> burst_time (temp s ! j) \<and>
       (burst_time (temp s ! j) = burst_time (temp s ! nat nx) \<longrightarrow> nat nx \<le> j)) \<and>
    current_time (sjf_body s) = int32 (current_time s + burst_time (temp s ! nat nx)) \<and>
    temp (sjf_body s) = (temp s)[nat nx := (temp s ! nat nx)
       \<lparr>start_time := current_time s,
        response_time := int32 (current_time s - arrival_time (temp s ! nat nx)),
        completion_time := int32 (current_time s + burst_time (temp s ! nat nx)),
        turnaround_time :=
          int32 (int32 (current_time s + burst_time (temp s ! nat nx))
                   - arrival_time (temp s ! nat nx)),
        waiting_time :=
          int32 (int32 (int32 (current_time s + burst_time (temp s ! nat nx))
                          - arrival_time (temp s ! nat nx))
                   - burst_time (temp s ! nat nx)),
        remaining_time := 0\<rparr>] \<and>
    is_completed (sjf_body s) = (is_completed s)[nat nx := 1] \<and>
    completed (sjf_body s) = completed s + 1 \<and>
    switches (sjf_body s) = switches s + 1"
proof -
  note r = sjf_scan_result [OF scan, simplified]
  from r nx have rng: "0 \<le> nx" "nx < int (length (temp s))"
    and el: "arrival_time (temp s ! nat nx) \<le> current_time s" "is_completed s ! nat nx = 0"
    and sh: "sh = burst_time (temp s ! nat nx)" "sh < 999999"
    by auto
  have least: "burst_time (temp s ! nat nx) \<le> burst_time (temp s ! j) \<and>
       (burst_time (temp s ! j) = burst_time (temp s ! nat nx) \<longrightarrow> nat nx \<le> j)"
    if "sjf_eligible s j" for j
  proof -
    from that have "j < length (temp s)" "arrival_time (temp s ! j) \<le> current_time s"
      "is_completed s ! j = 0" by (simp_all add: sjf_eligible_def)
    with r sh have "sh \<le> burst_time (temp s ! j)"
      and "burst_time (temp s ! j) = sh \<longrightarrow> nx \<le> int j" by auto
    with sh rng show ?thesis by auto
  qed
  from rng el have "sjf_eligible s (nat nx)" by (simp add: sjf_eligible_def)
  moreover from scan nx have "sjf_body s = s\<lparr>temp := (temp s)[nat nx := (temp s ! nat nx)
       \<lparr>start_time := current_time s,
        response_time := int32 (current_time s - arrival_time (temp s ! nat nx)),
        completion_time := int32 (current_time s + burst_time (temp s ! nat nx)),
        turnaround_time :=
          int32 (int32 (current_time s + burst_time (temp s ! nat nx))
                   - arrival_time (temp s ! nat nx)),
        waiting_time :=
          int32 (int32 (int32 (current_time s + burst_time (temp s ! nat nx))
                          - arrival_time (temp s ! nat nx))
                   - burst_time (temp s ! nat nx)),
        remaining_time := 0\<rparr>],
      current_time := int32 (current_time s + burst_time (temp s ! nat nx)),
      is_completed := (is_completed s)[nat nx := 1],
      completed := completed s + 1, switches := switches s + 1\<rparr>"
    by (simp add: sjf_body_def Let_def)
  ultimately show ?thesis using rng(1) least by simp
qed

lemma remaining_update_first:
  "p\<lparr>start_time := a, response_time := b, completion_time := c, turnaround_time := d,
      waiting_time := w, remaining_time := r\<rparr> =
   p\<lparr>start_time := a, response_time := b, remaining_time := r, completion_time := c,
      turnaround_time := d, waiting_time := w\<rparr>"
  by (cases p) simp

text \<open>What an iteration keeps true whatever the clock does.\<close>

lemma sjf_body_struct:
  assumes v: "\<forall>p \<in> set reg. valid_job p" and st: "sjf_struct reg s"
  shows "sjf_struct reg (sjf_body s)"
proof -
  let ?t = "current_time s"
  obtain nx sh where scan: "sjf_scan ?t (is_completed s) (temp s) 0 (-1, 999999) = (nx, sh)"
    by (cases "sjf_scan ?t (is_completed s) (temp s) 0 (-1, 999999)")
  from st have k: "completed s = int (done_count (temp s))"
    and len: "length (temp s) \<le> length (is_completed s)"
    and d: "map descriptor (temp s) = map descriptor reg"
    and rem: "\<And>j. j < length (temp s) \<Longrightarrow> remaining_time (temp s ! j) =
          (if is_completed s ! j = 0 then burst_time (temp s ! j) else 0)"
    by (simp_all add: sjf_struct_def)
  show ?thesis
  proof (cases "nx = -1")
    case True
    from sjf_body_idle [OF scan True] st show ?thesis by (simp add: sjf_struct_def)
  next
    case False
    let ?i = "nat nx"
    let ?p = "temp s ! ?i"
    note ds = sjf_body_dispatch [OF scan False]
    from ds have el: "?i < length (temp s)" "is_completed s ! ?i = 0"
      by (simp_all add: sjf_eligible_def)
    from ds obtain q where tmp: "temp (sjf_body s) = (temp s)[?i := q]"
      and q: "remaining_time q = 0" "descriptor q = descriptor ?p"
      and isc: "is_completed (sjf_body s) = (is_completed s)[?i := 1]"
      and c: "completed (sjf_body s) = completed s + 1"
      by (simp add: descriptor_def)
    from descriptor_nth [OF d el(1)] v have "0 < burst_time ?p" by (auto simp: valid_job_def)
    with rem [OF el(1)] el(2) have pos: "remaining_time ?p \<noteq> 0" by simp
    from done_count_update [OF el(1), of q] q(1) pos
    have "done_count ((temp s)[?i := q]) = done_count (temp s) + 1" by simp
    with c k tmp have k1: "completed (sjf_body s) = int (done_count (temp (sjf_body s)))"
      by simp
    from tmp d q(2) have d1: "map descriptor (temp (sjf_body s)) = map descriptor reg"
      by (simp add: map_descriptor_update)
    have "remaining_time (temp (sjf_body s) ! j) =
          (if is_completed (sjf_body s) ! j = 0 then burst_time (temp (sjf_body s) ! j) else 0)"
      if "j < length (temp (sjf_body s))" for j
    proof (cases "j = ?i")
      case True
      with tmp isc q(1) el(1) len show ?thesis by simp
    next
      case False
      with that tmp isc rem [of j] show ?thesis by simp
    qed
    with k1 d1 tmp isc len show ?thesis by (simp add: sjf_struct_def)
  qed
qed

text \<open>A job that is skipped stays so: the selection loop never takes it.\<close>

lemma sjf_body_skipped:
  assumes "sjf_skipped s"
  shows "sjf_skipped (sjf_body s)"
proof -
  let ?t = "current_time s"
  obtain nx sh where scan: "sjf_scan ?t (is_completed s) (temp s) 0 (-1, 999999) = (nx, sh)"
    by (cases "sjf_scan ?t (is_completed s) (temp s) 0 (-1, 999999)")
  from assms obtain j where j: "j < length (temp s)" "is_completed s ! j = 0"
    "999999 \<le> burst_time (temp s ! j)"
    by (auto simp: sjf_skipped_def)
  show ?thesis
  proof (cases "nx = -1")
    case True
    from sjf_body_idle [OF scan True] assms show ?thesis by (simp add: sjf_skipped_def)
  next
    case False
    note ds = sjf_body_dispatch [OF scan False]
    from sjf_scan_result [OF scan, simplified] False
    have "burst_time (temp s ! nat nx) < 999999" by auto
    with j(3) have ne: "j \<noteq> nat nx" by auto
    from ds obtain q where "temp (sjf_body s) = (temp s)[nat nx := q]"
      and "is_completed (sjf_body s) = (is_completed s)[nat nx := 1]"
      by simp
    with ne j have "j < length (temp (sjf_body s))" "is_completed (sjf_body s) ! j = 0"
      "temp (sjf_body s) ! j = temp s ! j"
      by simp_all
    with j(3) show ?thesis unfolding sjf_skipped_def by auto
  qed
qed

text \<open>
  With \<open>sched_inv\<close> and \<open>clock_inv\<close>, a dispatch computes within the range of \<^verbatim>\<open>int\<close>: the
  clock and the timing fields are the exact sums and differences.
\<close>

lemma sjf_body_exact:
  assumes scan: "sjf_scan (current_time s) (is_completed s) (temp s) 0 (-1, 999999) = (nx, sh)"
    and nx: "nx \<noteq> -1"
    and st: "sjf_struct reg s" and inv: "sched_inv reg s" and clock: "clock_inv reg s"
  shows "current_time (sjf_body s) = current_time s + burst_time (temp s ! nat nx)"
    and "temp (sjf_body s) = (temp s)[nat nx := (temp s ! nat nx)
       \<lparr>start_time := current_time s,
        response_time := current_time s - arrival_time (temp s ! nat nx),
        completion_time := current_time s + burst_time (temp s ! nat nx),
        turnaround_time := current_time s + burst_time (temp s ! nat nx)
                             - arrival_time (temp s ! nat nx),
        waiting_time := (current_time s + burst_time (temp s ! nat nx)
                           - arrival_time (temp s ! nat nx)) - burst_time (temp s ! nat nx),
        remaining_time := 0\<rparr>]"
    and "sched_inv reg (sjf_body s)" and "clock_inv reg (sjf_body s)"
proof -
  let ?t = "current_time s"
  let ?i = "nat nx"
  let ?p = "temp s ! ?i"
  note ds = sjf_body_dispatch [OF scan nx]
  from ds have el: "?i < length (temp s)" "arrival_time ?p \<le> ?t" "is_completed s ! ?i = 0"
    by (simp_all add: sjf_eligible_def)
  from st el(1,3) have rem: "burst_time ?p = remaining_time ?p" by (simp add: sjf_struct_def)
  from inv el(1) have j: "job_inv ?t ?p" by (simp add: sched_inv_def jobs_inv_def)
  then have pos: "0 < burst_time ?p" by (simp add: job_inv_def valid_job_def)
  from clock_inv_room [OF clock el(1)] pos rem
  have fit: "?t + remaining_time ?p \<le> INT_MAX" by simp
  from pos rem have e: "0 < burst_time ?p" "burst_time ?p \<le> remaining_time ?p" by simp_all
  note r = served_in_range [OF j el(2) e fit]
  from ds r(1) show t1: "current_time (sjf_body s) = ?t + burst_time ?p" by simp
  from r(4) rem have "int32 (?t + burst_time ?p - arrival_time ?p - burst_time ?p) =
      ?t + burst_time ?p - arrival_time ?p - burst_time ?p"
    by simp
  with ds r(1,2,3) show tmp: "temp (sjf_body s) = (temp s)[?i := ?p
       \<lparr>start_time := ?t,
        response_time := ?t - arrival_time ?p,
        completion_time := ?t + burst_time ?p,
        turnaround_time := ?t + burst_time ?p - arrival_time ?p,
        waiting_time := (?t + burst_time ?p - arrival_time ?p) - burst_time ?p,
        remaining_time := 0\<rparr>]"
    by simp
  show "sched_inv reg (sjf_body s)"
  proof (rule sched_inv_completed [OF inv el(1) el(2) pos rem,
        where a = "?t" and b = "?t - arrival_time ?p"])
    from t1 show "current_time (sjf_body s) = ?t + burst_time ?p" .
    from ds show "completed (sjf_body s) = completed s + 1" by simp
    from tmp show "temp (sjf_body s) = (temp s)[?i := ?p\<lparr>start_time := ?t,
        response_time := ?t - arrival_time ?p, remaining_time := 0,
        completion_time := ?t + burst_time ?p,
        turnaround_time := ?t + burst_time ?p - arrival_time ?p,
        waiting_time := (?t + burst_time ?p - arrival_time ?p) - burst_time ?p\<rparr>]"
      by (simp add: remaining_update_first)
  qed
  from tmp obtain q where "temp (sjf_body s) = (temp s)[?i := q]"
    and "remaining_time q = remaining_time ?p - burst_time ?p"
    using rem by simp
  from clock_inv_served [OF clock el(1) e t1 this] show "clock_inv reg (sjf_body s)" .
qed

text \<open>
  An idle tick while jobs are left and none is skipped: a job is still to arrive, so the
  clock stays below the latest arrival.
\<close>

lemma sjf_body_idle_exact:
  assumes scan: "sjf_scan (current_time s) (is_completed s) (temp s) 0 (-1, 999999) = (nx, sh)"
    and nx: "nx = -1" and more: "completed s < int (length (temp s))"
    and st: "sjf_struct reg s" and clock: "clock_inv reg s" and none: "\<not> sjf_skipped s"
  shows "sjf_body s = s\<lparr>current_time := current_time s + 1\<rparr>"
    and "current_time s < last_arrival reg"
proof -
  let ?t = "current_time s"
  from st have k: "completed s = int (done_count (temp s))"
    and d: "map descriptor (temp s) = map descriptor reg"
    and rem: "\<And>j. j < length (temp s) \<Longrightarrow> remaining_time (temp s ! j) =
          (if is_completed s ! j = 0 then burst_time (temp s ! j) else 0)"
    by (simp_all add: sjf_struct_def)
  from more k have "done_count (temp s) < length (temp s)" by simp
  from done_count_less [OF this]
  obtain j where j: "j < length (temp s)" and left: "remaining_time (temp s ! j) \<noteq> 0"
    by blast
  from rem [OF j] left have unmarked: "is_completed s ! j = 0" by (auto split: if_splits)
  with none j have small: "burst_time (temp s ! j) < 999999" by (auto simp: sjf_skipped_def)
  from sjf_scan_result [OF scan, simplified] nx
  have "sh = 999999"
    and "\<forall>k < length (temp s).
        arrival_time (temp s ! k) \<le> ?t \<and> is_completed s ! k = 0 \<longrightarrow>
        sh \<le> burst_time (temp s ! k)"
    by auto
  with j unmarked small have "?t < arrival_time (temp s ! j)" by force
  moreover from descriptor_nth [OF d j] have "arrival_time (temp s ! j) \<le> last_arrival reg"
    by (auto intro: last_arrival_ge)
  ultimately show lt: "?t < last_arrival reg" by simp
  from clock have "0 \<le> ?t" "last_arrival reg \<le> INT_MAX" by (auto simp: clock_inv_def)
  with lt have "int32 (?t + 1) = ?t + 1" by (intro int32_id) simp_all
  with sjf_body_idle [OF scan nx] show "sjf_body s = s\<lparr>current_time := ?t + 1\<rparr>" by simp
qed

lemma sjf_body_inv:
  assumes st: "sjf_struct reg s" and inv: "sched_inv reg s" and clock: "clock_inv reg s"
    and none: "\<not> sjf_skipped s" and more: "completed s < int (length (temp s))"
  shows "sched_inv reg (sjf_body s) \<and> clock_inv reg (sjf_body s)"
proof -
  let ?t = "current_time s"
  obtain nx sh where scan: "sjf_scan ?t (is_completed s) (temp s) 0 (-1, 999999) = (nx, sh)"
    by (cases "sjf_scan ?t (is_completed s) (temp s) 0 (-1, 999999)")
  show ?thesis
  proof (cases "nx = -1")
    case True
    note idle = sjf_body_idle_exact [OF scan True more st clock none]
    from idle(1) have "sched_inv reg (sjf_body s)" by (intro sched_inv_idle [OF inv]) simp_all
    moreover from clock idle have "clock_inv reg (sjf_body s)"
      by (auto simp: clock_inv_def max_def)
    ultimately show ?thesis by simp
  next
    case False
    from sjf_body_exact(3,4) [OF scan False st inv clock] show ?thesis by simp
  qed
qed

lemma sjf_body_run_inv:
  assumes v: "\<forall>p \<in> set reg. valid_job p" and inv: "sjf_run_inv reg s"
    and more: "completed s < int (length (temp s))"
  shows "sjf_run_inv reg (sjf_body s)"
proof -
  from inv have st: "sjf_struct reg s"
    and or: "sjf_skipped s \<or> sched_inv reg s \<and> clock_inv reg s"
    by (simp_all add: sjf_run_inv_def)
  note st1 = sjf_body_struct [OF v st]
  show ?thesis
  proof (cases "sjf_skipped s")
    case True
    from sjf_body_skipped [OF True] st1 show ?thesis by (simp add: sjf_run_inv_def)
  next
    case False
    with or have "sched_inv reg s" "clock_inv reg s" by simp_all
    from sjf_body_inv [OF st this False more] st1 show ?thesis by (simp add: sjf_run_inv_def)
  qed
qed

lemma sjf_struct_init:
  assumes "valid_registry reg"
  shows "sjf_struct reg \<lparr>temp = reg, current_time = 0, completed = 0, switches = 0,
           is_completed = replicate MAX_PROCESSES 0\<rparr>"
proof -
  have *: "\<forall>p \<in> set reg. remaining_time p = burst_time p \<and> remaining_time p \<noteq> 0"
    using assms initialised_fields by (auto simp: valid_registry_def valid_job_def)
  then have "filter (\<lambda>p. remaining_time p = 0) reg = []"
    unfolding filter_empty_conv by blast
  with * assms show ?thesis
    by (simp add: sjf_struct_def done_count_def valid_registry_def)
qed

lemma sjf_scheduling_all_done:
  assumes "valid_registry reg" and "clock_fits reg"
    and "sjf_scheduling reg = Some (Inr (m, out))"
  shows "all_done reg out"
proof -
  let ?s0 = "\<lparr>temp = reg, current_time = 0, completed = 0, switches = 0,
              is_completed = replicate MAX_PROCESSES 0\<rparr>"
  from assms(1) have v: "\<forall>p \<in> set reg. valid_job p" and "copy_in reg = Inr reg"
    by (simp_all add: copy_in_def valid_registry_def)
  with assms(3) obtain s where run: "sjf_loop ?s0 = Some s" and out: "out = temp s"
    by (cases "sjf_loop ?s0") (auto simp: sjf_scheduling_def)
  have "sched_inv reg ?s0" using assms(1) by (intro sched_inv_init) simp_all
  moreover have "clock_inv reg ?s0" using assms(1,2) by (intro clock_inv_init) simp_all
  ultimately have "sjf_run_inv reg ?s0"
    using sjf_struct_init [OF assms(1)] by (simp add: sjf_run_inv_def)
  from sjf_loop_invariant [OF run, of "sjf_run_inv reg", OF this] sjf_body_run_inv [OF v]
  have inv: "sjf_run_inv reg s" and fin: "\<not> completed s < int (length (temp s))" by blast+
  from inv have st: "sjf_struct reg s" by (simp add: sjf_run_inv_def)
  with fin have "length (temp s) \<le> done_count (temp s)" by (simp add: sjf_struct_def)
  then have zero: "remaining_time (temp s ! j) = 0" if "j < length (temp s)" for j
    using that by (intro done_count_all [of "temp s"]) simp_all
  have "\<not> sjf_skipped s"
  proof
    assume "sjf_skipped s"
    then obtain j where j: "j < length (temp s)" "is_completed s ! j = 0"
      "999999 \<le> burst_time (temp s ! j)"
      by (auto simp: sjf_skipped_def)
    with st have "remaining_time (temp s ! j) = burst_time (temp s ! j)"
      by (simp add: sjf_struct_def)
    with zero [OF j(1)] j(3) show False by simp
  qed
  with inv have "sched_inv reg s" by (simp add: sjf_run_inv_def)
  from sched_inv_exit [OF this fin] out show ?thesis by simp
qed

subsection \<open>Round robin: the enqueueing loops\<close>

lemma reads_own_flag_conds:
  "reads_own_flag arrived_at_zero" "reads_own_flag (ready_idle t)"
  "reads_own_flag (ready_after t idx)"
  by (simp_all add: reads_own_flag_def arrived_at_zero_def ready_idle_def ready_after_def)

lemma selected_cong:
  assumes "reads_own_flag c" and "0 \<le> i" and "\<forall>k \<ge> i. a ! nat k = b ! nat k"
  shows "selected c ps i a = selected c ps i b"
  using assms(2,3)
proof (induction ps arbitrary: i)
  case Nil
  then show ?case by simp
next
  case (Cons p ps)
  from Cons.prems have "a ! nat i = b ! nat i" by simp
  with assms(1) have "c i p a = c i p b" unfolding reads_own_flag_def by blast
  moreover from Cons.prems have "selected c ps (i + 1) a = selected c ps (i + 1) b"
    by (intro Cons.IH) auto
  ultimately show ?case by simp
qed

lemma selected_filter:
  "selected c ps i inq =
     map (\<lambda>k. i + int k) (filter (\<lambda>k. c (i + int k) (ps ! k) inq) [0..<length ps])"
proof (induction ps arbitrary: i)
  case Nil
  then show ?case by simp
next
  case (Cons p ps)
  have "[0..<length (p # ps)] = 0 # map Suc [0..<length ps]"
    by (simp add: upt_conv_Cons map_Suc_upt del: upt_Suc)
  then show ?case
    by (simp add: Cons.IH [of "i + 1"] filter_map comp_def add.assoc del: upt_Suc)
qed

lemma selected_set:
  "x \<in> set (selected c ps i inq) \<longleftrightarrow>
     (\<exists>k < length ps. x = i + int k \<and> c x (ps ! k) inq)"
  by (auto simp: selected_filter)

lemma selected_distinct: "distinct (selected c ps i inq)"
  by (simp add: selected_filter distinct_map inj_on_def)

lemma mark_queued_length: "length (mark_queued xs a) = length a"
  unfolding mark_queued_def by (induction xs arbitrary: a) simp_all

lemma mark_queued_nth:
  "k < length a \<Longrightarrow>
     mark_queued xs a ! k = (if k \<in> nat ` set xs then (1::int) else a ! k)"
  unfolding mark_queued_def
proof (induction xs arbitrary: a)
  case Nil
  then show ?case by simp
next
  case (Cons x xs)
  then show ?case by (auto simp: nth_list_update)
qed

lemma enqueue_where_result:
  assumes "enqueue_where c ps i (q, inq) = Inr (q', inq')" and "reads_own_flag c" and "0 \<le> i"
  shows "q' = q @ selected c ps i inq \<and>
         inq' = mark_queued (selected c ps i inq) inq \<and>
         (length q \<le> MAX_PROCESSES \<longrightarrow> length q' \<le> MAX_PROCESSES)"
  using assms(1,3)
proof (induction ps arbitrary: i q inq)
  case Nil
  then show ?case by (simp add: mark_queued_def)
next
  case (Cons p ps)
  show ?case
  proof (cases "c i p inq")
    case False
    with Cons.prems have "enqueue_where c ps (i + 1) (q, inq) = Inr (q', inq')" by simp
    from Cons.IH [OF this] Cons.prems(2) False show ?thesis by auto
  next
    case True
    let ?inq1 = "inq[nat i := 1]"
    from True Cons.prems(1) have len: "length q < MAX_PROCESSES"
      by (auto simp: enqueue_def split: if_splits)
    with True Cons.prems(1)
    have "enqueue_where c ps (i + 1) (q @ [i], ?inq1) = Inr (q', inq')"
      by (simp add: enqueue_def)
    from Cons.IH [OF this] Cons.prems(2) len
    have IH: "q' = (q @ [i]) @ selected c ps (i + 1) ?inq1"
      "inq' = mark_queued (selected c ps (i + 1) ?inq1) ?inq1"
      "length q' \<le> MAX_PROCESSES"
      by auto
    have "selected c ps (i + 1) ?inq1 = selected c ps (i + 1) inq"
      using Cons.prems(2) by (intro selected_cong [OF assms(2)]) auto
    with IH True show ?thesis by (simp add: mark_queued_def)
  qed
qed

subsection \<open>Round robin: one iteration\<close>

lemma rr_idle_result:
  assumes "rr_idle s = Inr s1"
  shows "s1 = s\<lparr>current_time := int32 (current_time s + 1),
              queue := queue s @ selected (ready_idle (int32 (current_time s + 1))) (temp s) 0 (in_queue s),
              in_queue := mark_queued
                (selected (ready_idle (int32 (current_time s + 1))) (temp s) 0 (in_queue s))
                (in_queue s)\<rparr> \<and>
         (length (queue s) \<le> MAX_PROCESSES \<longrightarrow> length (queue s1) \<le> MAX_PROCESSES)"
proof -
  let ?t = "int32 (current_time s + 1)"
  from assms obtain q inq
    where e: "enqueue_where (ready_idle ?t) (temp s) 0 (queue s, in_queue s) = Inr (q, inq)"
      and s1: "s1 = s\<lparr>current_time := ?t, queue := q, in_queue := inq\<rparr>"
    by (auto simp: rr_idle_def Let_def split: sum.splits)
  from enqueue_where_result [OF e reads_own_flag_conds(2)] s1 show ?thesis by auto
qed

text \<open>
  The rest of the loop body with its local variables written out: \<open>a\<close> and \<open>b\<close> are the
  \<^verbatim>\<open>start_time\<close> and \<^verbatim>\<open>response_time\<close> of the job after the first-dispatch test.
\<close>

lemma rr_run_unfold:
  fixes s :: rstate
  defines "idx \<equiv> queue s ! front s"
  defines "p \<equiv> temp s ! nat idx"
  defines "e \<equiv> (if remaining_time p > TIME_QUANTUM then TIME_QUANTUM else remaining_time p)"
  defines "inq0 \<equiv> (in_queue s)[nat idx := 0]"
  shows "\<exists>a b. rr_run s =
    (case enqueue_where (ready_after (int32 (current_time s + e)) idx) ((temp s)[nat idx := p\<lparr>start_time := a, response_time := b,
               remaining_time := remaining_time p - e\<rparr>]) 0 (queue s, inq0) of
           Inl f \<Rightarrow> Inl f
         | Inr (q, inq) \<Rightarrow>
             if remaining_time p = e
             then Inr (s\<lparr>temp := (temp s)[nat idx := p\<lparr>start_time := a, response_time := b,
                           remaining_time := 0, completion_time := int32 (current_time s + e),
                           turnaround_time := int32 (int32 (current_time s + e) - arrival_time p),
                           waiting_time := int32 (int32 (int32 (current_time s + e) - arrival_time p) - burst_time p)\<rparr>],
                         current_time := int32 (current_time s + e), completed := completed s + 1,
                         switches := switches s + 1,
                         queue := q, front := front s + 1, in_queue := inq\<rparr>)
             else
               (case enqueue idx (q, inq) of
                  Inl f \<Rightarrow> Inl f
                | Inr (q', inq') \<Rightarrow>
                    Inr (s\<lparr>temp := ((temp s)[nat idx := p\<lparr>start_time := a, response_time := b,
               remaining_time := remaining_time p - e\<rparr>]), current_time := int32 (current_time s + e), switches := switches s + 1,
                           queue := q', front := front s + 1, in_queue := inq'\<rparr>)))"
proof -
  let ?t = "current_time s"
  obtain a b where p1: "(if start_time p = -1
                then p\<lparr>start_time := ?t, response_time := int32 (?t - arrival_time p)\<rparr>
                else p) = p\<lparr>start_time := a, response_time := b\<rparr>"
  proof (cases "start_time p = -1")
    case True
    then show ?thesis by (intro that [where a = ?t and b = "int32 (?t - arrival_time p)"]) simp
  next
    case False
    then show ?thesis
      by (intro that [where a = "start_time p" and b = "response_time p"]) simp
  qed
  let ?served = "p\<lparr>start_time := a, response_time := b, remaining_time := remaining_time p - e\<rparr>"
  let ?tmp = "(temp s)[nat idx := ?served]"
  let ?sel = "selected (ready_after (int32 (?t + e)) idx) ?tmp 0 inq0"
  define G where "G = (\<lambda>p1.
      let exec_time = (if remaining_time p1 > TIME_QUANTUM
                       then TIME_QUANTUM else remaining_time p1);
          p2 = p1\<lparr>remaining_time := remaining_time p1 - exec_time\<rparr>;
          t = int32 (current_time s + exec_time);
          ta = int32 (t - arrival_time p2);
          tmp = (temp s)[nat idx := p2]
      in case enqueue_where (ready_after t idx) tmp 0 (queue s, inq0) of
           Inl f \<Rightarrow> Inl f
         | Inr (q, inq) \<Rightarrow>
             if remaining_time p2 = 0
             then Inr (s\<lparr>temp := tmp[nat idx :=
                                  p2\<lparr>completion_time := t,
                                     turnaround_time := ta,
                                     waiting_time := int32 (ta - burst_time p2)\<rparr>],
                         current_time := t, completed := completed s + 1,
                         switches := switches s + 1,
                         queue := q, front := front s + 1, in_queue := inq\<rparr>)
             else
               (case enqueue idx (q, inq) of
                  Inl f \<Rightarrow> Inl f
                | Inr (q', inq') \<Rightarrow>
                    Inr (s\<lparr>temp := tmp, current_time := t, switches := switches s + 1,
                           queue := q', front := front s + 1, in_queue := inq'\<rparr>)))"
  have "rr_run s = G (if start_time p = -1
                then p\<lparr>start_time := ?t, response_time := int32 (?t - arrival_time p)\<rparr>
                else p)"
    unfolding rr_run_def G_def idx_def p_def inq0_def Let_def ..
  then have "rr_run s = G (p\<lparr>start_time := a, response_time := b\<rparr>)"
    by (simp only: p1)
  moreover have "G (p\<lparr>start_time := a, response_time := b\<rparr>) =
      (case enqueue_where (ready_after (int32 (?t + e)) idx) ?tmp 0 (queue s, inq0) of
           Inl f \<Rightarrow> Inl f
         | Inr (q, inq) \<Rightarrow>
             if remaining_time p = e
             then Inr (s\<lparr>temp := (temp s)[nat idx := p\<lparr>start_time := a, response_time := b,
                           remaining_time := 0, completion_time := int32 (?t + e),
                           turnaround_time := int32 (int32 (?t + e) - arrival_time p),
                           waiting_time := int32 (int32 (int32 (?t + e) - arrival_time p) - burst_time p)\<rparr>],
                         current_time := int32 (?t + e), completed := completed s + 1,
                         switches := switches s + 1,
                         queue := q, front := front s + 1, in_queue := inq\<rparr>)
             else
               (case enqueue idx (q, inq) of
                  Inl f \<Rightarrow> Inl f
                | Inr (q', inq') \<Rightarrow>
                    Inr (s\<lparr>temp := ?tmp, current_time := int32 (?t + e), switches := switches s + 1,
                           queue := q', front := front s + 1, in_queue := inq'\<rparr>)))"
    unfolding G_def Let_def e_def by (simp cong: sum.case_cong)
  ultimately have "rr_run s =
    (case enqueue_where (ready_after (int32 (?t + e)) idx) ?tmp 0 (queue s, inq0) of
           Inl f \<Rightarrow> Inl f
         | Inr (q, inq) \<Rightarrow>
             if remaining_time p = e
             then Inr (s\<lparr>temp := (temp s)[nat idx := p\<lparr>start_time := a, response_time := b,
                           remaining_time := 0, completion_time := int32 (?t + e),
                           turnaround_time := int32 (int32 (?t + e) - arrival_time p),
                           waiting_time := int32 (int32 (int32 (?t + e) - arrival_time p) - burst_time p)\<rparr>],
                         current_time := int32 (?t + e), completed := completed s + 1,
                         switches := switches s + 1,
                         queue := q, front := front s + 1, in_queue := inq\<rparr>)
             else
               (case enqueue idx (q, inq) of
                  Inl f \<Rightarrow> Inl f
                | Inr (q', inq') \<Rightarrow>
                    Inr (s\<lparr>temp := ?tmp, current_time := int32 (?t + e), switches := switches s + 1,
                           queue := q', front := front s + 1, in_queue := inq'\<rparr>)))"
    by simp
  then show ?thesis by blast
qed

lemma rr_run_result:
  assumes run: "rr_run s = Inr s1"
  defines "idx \<equiv> queue s ! front s"
  defines "p \<equiv> temp s ! nat idx"
  defines "e \<equiv> (if remaining_time p > TIME_QUANTUM then TIME_QUANTUM else remaining_time p)"
  defines "inq0 \<equiv> (in_queue s)[nat idx := 0]"
  shows "\<exists>a b.
    (let served = p\<lparr>start_time := a, response_time := b,
                     remaining_time := remaining_time p - e\<rparr>;
         sel = selected (ready_after (int32 (current_time s + e)) idx)
                 ((temp s)[nat idx := served]) 0 inq0
     in current_time s1 = int32 (current_time s + e) \<and> front s1 = front s + 1 \<and>
        switches s1 = switches s + 1 \<and>
        (length (queue s) \<le> MAX_PROCESSES \<longrightarrow> length (queue s1) \<le> MAX_PROCESSES) \<and>
        (if remaining_time p = e
         then completed s1 = completed s + 1 \<and>
              temp s1 = (temp s)[nat idx := p\<lparr>start_time := a, response_time := b,
                 remaining_time := 0, completion_time := int32 (current_time s + e),
                 turnaround_time := int32 (int32 (current_time s + e) - arrival_time p),
                 waiting_time := int32 (int32 (int32 (current_time s + e) - arrival_time p) - burst_time p)\<rparr>] \<and>
              queue s1 = queue s @ sel \<and> in_queue s1 = mark_queued sel inq0
         else completed s1 = completed s \<and>
              temp s1 = (temp s)[nat idx := served] \<and>
              queue s1 = queue s @ sel @ [idx] \<and>
              in_queue s1 = (mark_queued sel inq0)[nat idx := 1]))"
proof -
  let ?t = "current_time s"
  from rr_run_unfold [of s] obtain a b where unfold: "rr_run s =
    (case enqueue_where (ready_after (int32 (current_time s + e)) idx) ((temp s)[nat idx := p\<lparr>start_time := a, response_time := b,
               remaining_time := remaining_time p - e\<rparr>]) 0 (queue s, inq0) of
           Inl f \<Rightarrow> Inl f
         | Inr (q, inq) \<Rightarrow>
             if remaining_time p = e
             then Inr (s\<lparr>temp := (temp s)[nat idx := p\<lparr>start_time := a, response_time := b,
                           remaining_time := 0, completion_time := int32 (current_time s + e),
                           turnaround_time := int32 (int32 (current_time s + e) - arrival_time p),
                           waiting_time := int32 (int32 (int32 (current_time s + e) - arrival_time p) - burst_time p)\<rparr>],
                         current_time := int32 (current_time s + e), completed := completed s + 1,
                         switches := switches s + 1,
                         queue := q, front := front s + 1, in_queue := inq\<rparr>)
             else
               (case enqueue idx (q, inq) of
                  Inl f \<Rightarrow> Inl f
                | Inr (q', inq') \<Rightarrow>
                    Inr (s\<lparr>temp := ((temp s)[nat idx := p\<lparr>start_time := a, response_time := b,
               remaining_time := remaining_time p - e\<rparr>]), current_time := int32 (current_time s + e), switches := switches s + 1,
                           queue := q', front := front s + 1, in_queue := inq'\<rparr>)))"
    unfolding idx_def p_def e_def inq0_def by blast
  let ?served = "p\<lparr>start_time := a, response_time := b, remaining_time := remaining_time p - e\<rparr>"
  let ?tmp = "(temp s)[nat idx := ?served]"
  let ?sel = "selected (ready_after (int32 (?t + e)) idx) ?tmp 0 inq0"
  from unfold run have G: "(case enqueue_where (ready_after (int32 (?t + e)) idx) ?tmp 0 (queue s, inq0) of
           Inl f \<Rightarrow> Inl f
         | Inr (q, inq) \<Rightarrow>
             if remaining_time p = e
             then Inr (s\<lparr>temp := (temp s)[nat idx := p\<lparr>start_time := a, response_time := b,
                           remaining_time := 0, completion_time := int32 (?t + e),
                           turnaround_time := int32 (int32 (?t + e) - arrival_time p),
                           waiting_time := int32 (int32 (int32 (?t + e) - arrival_time p) - burst_time p)\<rparr>],
                         current_time := int32 (?t + e), completed := completed s + 1,
                         switches := switches s + 1,
                         queue := q, front := front s + 1, in_queue := inq\<rparr>)
             else
               (case enqueue idx (q, inq) of
                  Inl f \<Rightarrow> Inl f
                | Inr (q', inq') \<Rightarrow>
                    Inr (s\<lparr>temp := ?tmp, current_time := int32 (?t + e), switches := switches s + 1,
                           queue := q', front := front s + 1, in_queue := inq'\<rparr>))) = Inr s1"
    by simp
  then obtain q inq
    where ew: "enqueue_where (ready_after (int32 (?t + e)) idx) ?tmp 0 (queue s, inq0) = Inr (q, inq)"
    by (cases "enqueue_where (ready_after (int32 (?t + e)) idx) ?tmp 0 (queue s, inq0)") auto
  from enqueue_where_result [OF ew reads_own_flag_conds(3)]
  have q: "q = queue s @ ?sel" and inq: "inq = mark_queued ?sel inq0"
    and len: "length (queue s) \<le> MAX_PROCESSES \<longrightarrow> length q \<le> MAX_PROCESSES"
    by auto
  show ?thesis
  proof (cases "remaining_time p = e")
    case True
    with G ew have "s1 = s\<lparr>temp := (temp s)[nat idx := p\<lparr>start_time := a, response_time := b,
                           remaining_time := 0, completion_time := int32 (?t + e),
                           turnaround_time := int32 (int32 (?t + e) - arrival_time p),
                           waiting_time := int32 (int32 (int32 (?t + e) - arrival_time p) - burst_time p)\<rparr>],
        current_time := int32 (?t + e), completed := completed s + 1, switches := switches s + 1,
        queue := q, front := front s + 1, in_queue := inq\<rparr>"
      by simp
    with True q inq len show ?thesis
      by (intro exI [of _ a] exI [of _ b]) (simp add: Let_def)
  next
    case False
    with G ew obtain q' inq' where en: "enqueue idx (q, inq) = Inr (q', inq')"
      and s1: "s1 = s\<lparr>temp := ?tmp, current_time := int32 (?t + e), switches := switches s + 1,
                      queue := q', front := front s + 1, in_queue := inq'\<rparr>"
      by (cases "enqueue idx (q, inq)") auto
    from en have "q' = q @ [idx]" "inq' = inq[nat idx := 1]" "length q' \<le> MAX_PROCESSES"
      by (auto simp: enqueue_def split: if_splits)
    with False s1 q inq show ?thesis
      by (intro exI [of _ a] exI [of _ b]) (simp add: Let_def)
  qed
qed

subsection \<open>Round robin: the invariant\<close>

lemma selected_nat_image:
  "i \<in> nat ` set (selected c ps 0 inq) \<longleftrightarrow> int i \<in> set (selected c ps 0 inq)"
proof
  assume "i \<in> nat ` set (selected c ps 0 inq)"
  then obtain x where x: "x \<in> set (selected c ps 0 inq)" and i: "i = nat x" by auto
  from x have "0 \<le> x" by (auto simp: selected_set)
  with x i show "int i \<in> set (selected c ps 0 inq)" by simp
next
  assume "int i \<in> set (selected c ps 0 inq)"
  then show "i \<in> nat ` set (selected c ps 0 inq)" by (intro image_eqI [of _ _ "int i"]) simp_all
qed

lemma selected_range:
  "x \<in> set (selected c ps 0 inq) \<Longrightarrow> 0 \<le> x \<and> nat x < length ps"
  by (auto simp: selected_set)

lemma selected_mem:
  "int i \<in> set (selected c ps 0 inq) \<longleftrightarrow> i < length ps \<and> c (int i) (ps ! i) inq"
  by (auto simp: selected_set)

lemma job_inv_unserved:
  "job_inv t p \<Longrightarrow> t < arrival_time p \<Longrightarrow> remaining_time p = burst_time p \<and> 0 < remaining_time p"
  by (auto simp: job_inv_def valid_job_def)

lemma rr_init_inv:
  assumes reg: "valid_registry reg" and init: "rr_init reg = Inr s"
  shows "rr_inv reg s"
proof -
  let ?inq = "replicate MAX_PROCESSES (0::int)"
  let ?sel = "selected arrived_at_zero reg 0 ?inq"
  from init obtain q inq
    where ew: "enqueue_where arrived_at_zero reg 0 ([], ?inq) = Inr (q, inq)"
      and s: "s = \<lparr>temp = reg, current_time = 0, completed = 0, switches = 0,
                   queue = q, front = 0, in_queue = inq\<rparr>"
    by (auto simp: rr_init_def split: sum.splits)
  from enqueue_where_result [OF ew reads_own_flag_conds(1)]
  have q: "q = ?sel" and inq: "inq = mark_queued ?sel ?inq" and lq: "length q \<le> MAX_PROCESSES"
    by auto
  from reg have len: "length reg \<le> MAX_PROCESSES" by (simp add: valid_registry_def)
  have si: "sched_inv reg s" using reg s by (intro sched_inv_init) simp_all
  then have ji: "\<And>i. i < length reg \<Longrightarrow> job_inv 0 (reg ! i)"
    using s by (simp add: sched_inv_def jobs_inv_def)
  have fresh: "0 \<le> arrival_time (reg ! i) \<and> 0 < remaining_time (reg ! i)"
    if "i < length reg" for i
    using that reg initialised_fields [of "reg ! i"]
    by (simp add: valid_registry_def valid_job_def)
  have mem: "int i \<in> set ?sel \<longleftrightarrow>
      arrival_time (reg ! i) \<le> 0 \<and> 0 < remaining_time (reg ! i)" if "i < length reg" for i
    using that fresh [OF that] by (auto simp: selected_mem arrived_at_zero_def)
  have flag: "inq ! i \<noteq> 0 \<longleftrightarrow> int i \<in> set ?sel" if "i < length reg" for i
    using that len inq by (simp add: mark_queued_nth selected_nat_image)
  show ?thesis
    unfolding rr_inv_def ready_queue_def
    using si s q lq len selected_distinct [of arrived_at_zero reg 0 ?inq] mem flag
    by (auto simp: inq mark_queued_length dest: selected_range)
qed

text \<open>
  An idle tick while jobs are left: the queue is empty, so a job is still to arrive, and the
  clock stays below the latest arrival.
\<close>

lemma rr_idle_inv:
  assumes inv: "rr_inv reg s" and clock: "clock_inv reg s"
    and more: "completed s < int (length (temp s))"
    and idle: "front s = length (queue s)" and run: "rr_idle s = Inr s1"
  shows "rr_inv reg s1" and "clock_inv reg s1"
    and "s1 = s\<lparr>current_time := current_time s + 1,
              queue := queue s @ selected (ready_idle (current_time s + 1)) (temp s) 0 (in_queue s),
              in_queue := mark_queued
                (selected (ready_idle (current_time s + 1)) (temp s) 0 (in_queue s))
                (in_queue s)\<rparr>"
proof -
  let ?t = "current_time s + 1"
  let ?sel = "selected (ready_idle ?t) (temp s) 0 (in_queue s)"
  from inv have si: "sched_inv reg s" and len: "length (temp s) \<le> length (in_queue s)"
    and lq0: "length (queue s) \<le> MAX_PROCESSES"
    and all: "\<And>i. i < length (temp s) \<Longrightarrow>
        (in_queue s ! i \<noteq> 0 \<longleftrightarrow> int i \<in> set (ready_queue s)) \<and>
        (int i \<in> set (ready_queue s) \<longleftrightarrow>
           arrival_time (temp s ! i) \<le> current_time s \<and> remaining_time (temp s ! i) > 0)"
    by (simp_all add: rr_inv_def)
  from idle have empty: "ready_queue s = []" by (simp add: ready_queue_def)
  from si have d: "map descriptor (temp s) = map descriptor reg"
    and k: "completed s = int (done_count (temp s))"
    and ji: "jobs_inv (current_time s) (temp s)"
    by (simp_all add: sched_inv_def)
  from more k have "done_count (temp s) < length (temp s)" by simp
  from done_count_less [OF this]
  obtain j where j: "j < length (temp s)" and left: "remaining_time (temp s ! j) \<noteq> 0"
    by blast
  from ji j have "0 \<le> remaining_time (temp s ! j)" by (simp add: jobs_inv_def job_inv_def)
  with left have "0 < remaining_time (temp s ! j)" by simp
  with all [OF j] empty have "current_time s < arrival_time (temp s ! j)" by auto
  moreover from descriptor_nth [OF d j] have "arrival_time (temp s ! j) \<le> last_arrival reg"
    by (auto intro: last_arrival_ge)
  ultimately have lt: "current_time s < last_arrival reg" by simp
  from clock have "0 \<le> current_time s" "last_arrival reg \<le> INT_MAX"
    by (auto simp: clock_inv_def)
  with lt have c: "int32 (current_time s + 1) = ?t" by (intro int32_id) simp_all
  from rr_idle_result [OF run, unfolded c]
  have s1: "s1 = s\<lparr>current_time := ?t, queue := queue s @ ?sel,
               in_queue := mark_queued ?sel (in_queue s)\<rparr>"
    and lq: "length (queue s) \<le> MAX_PROCESSES \<longrightarrow> length (queue s1) \<le> MAX_PROCESSES"
    by blast+
  show "s1 = s\<lparr>current_time := ?t, queue := queue s @ ?sel,
              in_queue := mark_queued ?sel (in_queue s)\<rparr>"
    by (rule s1)
  from clock lt s1 show "clock_inv reg s1" by (auto simp: clock_inv_def max_def)
  have rq1: "ready_queue s1 = ?sel" using s1 idle by (simp add: ready_queue_def)
  have si1: "sched_inv reg s1" using s1 by (intro sched_inv_idle [OF si]) simp_all
  have flag0: "in_queue s ! i = 0" if "i < length (temp s)" for i
    using all [OF that] empty by simp
  have mem: "int i \<in> set ?sel \<longleftrightarrow>
      arrival_time (temp s ! i) \<le> ?t \<and> remaining_time (temp s ! i) > 0"
    if "i < length (temp s)" for i
    using that flag0 [OF that] by (simp add: selected_mem ready_idle_def)
  have flag: "in_queue s1 ! i \<noteq> 0 \<longleftrightarrow> int i \<in> set ?sel" if "i < length (temp s)" for i
    using that len flag0 [OF that] s1 by (simp add: mark_queued_nth selected_nat_image)
  show "rr_inv reg s1"
    unfolding rr_inv_def rq1
    using si1 len lq lq0 idle selected_distinct [of "ready_idle ?t" "temp s" 0 "in_queue s"]
      mem flag
    by (auto simp: s1 mark_queued_length dest: selected_range)
qed


text \<open>
  A dispatch from a state that satisfies the invariant: what is enqueued, in which order, and
  that the invariant holds again.
\<close>

lemma rr_run_step:
  assumes inv: "rr_inv reg s" and clock: "clock_inv reg s"
    and ne: "front s \<noteq> length (queue s)" and run: "rr_run s = Inr s1"
  defines "idx \<equiv> queue s ! front s"
  defines "p \<equiv> temp s ! nat idx"
  defines "e \<equiv> (if remaining_time p > TIME_QUANTUM then TIME_QUANTUM else remaining_time p)"
  shows "ready_queue s = idx # tl (ready_queue s)"
    and "0 \<le> idx \<and> nat idx < length (temp s)"
    and "arrival_time p \<le> current_time s \<and> 0 < e \<and> e \<le> remaining_time p"
    and "current_time s1 = current_time s + e"
    and "ready_queue s1 =
           tl (ready_queue s) @
           arrivals_between (temp s) (current_time s) (current_time s + e) @
           (if remaining_time p = e then [] else [idx])"
    and "\<exists>a b. temp s1 = (temp s)[nat idx :=
           (if remaining_time p = e
            then p\<lparr>start_time := a, response_time := b, remaining_time := 0,
                   completion_time := current_time s + e,
                   turnaround_time := current_time s + e - arrival_time p,
                   waiting_time := (current_time s + e - arrival_time p) - burst_time p\<rparr>
            else p\<lparr>start_time := a, response_time := b,
                   remaining_time := remaining_time p - e\<rparr>)]"
    and "rr_inv reg s1"
    and "clock_inv reg s1"
proof -
  let ?t = "current_time s"
  let ?n = "length (temp s)"
  let ?i0 = "nat idx"
  let ?rest = "tl (ready_queue s)"
  let ?inq0 = "(in_queue s)[?i0 := 0]"
  from inv have si: "sched_inv reg s" and len: "?n \<le> length (in_queue s)"
    and fr: "front s \<le> length (queue s)" and lq0: "length (queue s) \<le> MAX_PROCESSES"
    and dist: "distinct (ready_queue s)"
    and rng: "\<And>x. x \<in> set (ready_queue s) \<Longrightarrow> 0 \<le> x \<and> nat x < ?n"
    and flag: "\<And>i. i < ?n \<Longrightarrow> in_queue s ! i \<noteq> 0 \<longleftrightarrow> int i \<in> set (ready_queue s)"
    and ready: "\<And>i. i < ?n \<Longrightarrow> int i \<in> set (ready_queue s) \<longleftrightarrow>
           arrival_time (temp s ! i) \<le> ?t \<and> remaining_time (temp s ! i) > 0"
    by (simp_all add: rr_inv_def)
  from si have ji: "\<And>i. i < ?n \<Longrightarrow> job_inv ?t (temp s ! i)"
    by (simp add: sched_inv_def jobs_inv_def)
  from ne fr have lt: "front s < length (queue s)" by simp
  then have d: "drop (front s) (queue s) = idx # drop (Suc (front s)) (queue s)"
    by (simp add: idx_def Cons_nth_drop_Suc)
  then show rq: "ready_queue s = idx # ?rest" by (simp add: ready_queue_def)
  from d have rest: "?rest = drop (Suc (front s)) (queue s)" by (simp add: ready_queue_def)
  from rq have idx_in: "idx \<in> set (ready_queue s)" by (metis list.set_intros(1))
  from rng [OF idx_in] show i0: "0 \<le> idx \<and> nat idx < ?n" .
  then have int_i0: "int ?i0 = idx" by simp
  from ready [of ?i0] i0 idx_in int_i0
  have arr: "arrival_time p \<le> ?t" and rem: "0 < remaining_time p" by (simp_all add: p_def)
  then show e: "arrival_time p \<le> ?t \<and> 0 < e \<and> e \<le> remaining_time p" by (simp add: e_def)
  from dist rq have idx_rest: "idx \<notin> set ?rest" by (metis distinct.simps(2))
  have in_rest: "x \<in> set (ready_queue s) \<longleftrightarrow> x = idx \<or> x \<in> set ?rest" for x
    using rq by (metis set_ConsD list.set_intros)
  from si i0 have jp: "job_inv ?t p" by (simp add: sched_inv_def jobs_inv_def p_def)
  from clock_inv_room [OF clock, of ?i0] i0 rem
  have fit: "?t + remaining_time p \<le> INT_MAX" by (simp add: p_def)
  from e have e': "0 < e" "e \<le> remaining_time p" by simp_all
  note c = served_in_range [OF jp arr e' fit]
  from rr_run_result [OF run, folded idx_def, folded p_def, folded e_def, unfolded Let_def]
  obtain a b where raw0:
    "current_time s1 = int32 (?t + e)" "front s1 = front s + 1"
    "length (queue s) \<le> MAX_PROCESSES \<longrightarrow> length (queue s1) \<le> MAX_PROCESSES"
    "if remaining_time p = e
     then completed s1 = completed s + 1 \<and>
          temp s1 = (temp s)[?i0 := p\<lparr>start_time := a, response_time := b,
             remaining_time := 0, completion_time := int32 (?t + e),
             turnaround_time := int32 (int32 (?t + e) - arrival_time p),
             waiting_time := int32 (int32 (int32 (?t + e) - arrival_time p) - burst_time p)\<rparr>] \<and>
          queue s1 = queue s @
            selected (ready_after (int32 (?t + e)) idx)
              ((temp s)[?i0 := p\<lparr>start_time := a, response_time := b,
                  remaining_time := remaining_time p - e\<rparr>]) 0 ?inq0 \<and>
          in_queue s1 = mark_queued
            (selected (ready_after (int32 (?t + e)) idx)
              ((temp s)[?i0 := p\<lparr>start_time := a, response_time := b,
                  remaining_time := remaining_time p - e\<rparr>]) 0 ?inq0) ?inq0
     else completed s1 = completed s \<and>
          temp s1 = (temp s)[?i0 := p\<lparr>start_time := a, response_time := b,
                  remaining_time := remaining_time p - e\<rparr>] \<and>
          queue s1 = queue s @
            selected (ready_after (int32 (?t + e)) idx)
              ((temp s)[?i0 := p\<lparr>start_time := a, response_time := b,
                  remaining_time := remaining_time p - e\<rparr>]) 0 ?inq0 @ [idx] \<and>
          in_queue s1 = (mark_queued
            (selected (ready_after (int32 (?t + e)) idx)
              ((temp s)[?i0 := p\<lparr>start_time := a, response_time := b,
                  remaining_time := remaining_time p - e\<rparr>]) 0 ?inq0) ?inq0)[?i0 := 1]"
    by blast
  note raw = raw0 [unfolded c(1) c(3)]
  let ?served = "p\<lparr>start_time := a, response_time := b, remaining_time := remaining_time p - e\<rparr>"
  let ?tmp = "(temp s)[?i0 := ?served]"
  let ?sel = "selected (ready_after (?t + e) idx) ?tmp 0 ?inq0"
  let ?win = "arrivals_between (temp s) ?t (?t + e)"
  from raw(1) show t1: "current_time s1 = ?t + e" .
  note f1 = raw(2)
  from raw(3) lq0 have lq1: "length (queue s1) \<le> MAX_PROCESSES" by simp
  have win_mem: "int i \<in> set ?win \<longleftrightarrow>
      ?t < arrival_time (temp s ! i) \<and> arrival_time (temp s ! i) \<le> ?t + e"
    if "i < ?n" for i
    using that by (auto simp: arrivals_between_def)
  have "ready_after (?t + e) idx (int k) (?tmp ! k) ?inq0 \<longleftrightarrow>
        ?t < arrival_time (temp s ! k) \<and> arrival_time (temp s ! k) \<le> ?t + e"
    if k: "k < ?n" for k
  proof (cases "k = ?i0")
    case True
    with arr int_i0 show ?thesis by (simp add: ready_after_def p_def)
  next
    case False
    with int_i0 have neq: "int k \<noteq> idx" by auto
    from False have nth: "?tmp ! k = temp s ! k" "?inq0 ! k = in_queue s ! k" by simp_all
    show ?thesis
    proof (cases "?t < arrival_time (temp s ! k)")
      case True
      with job_inv_unserved [OF ji [OF k]] flag [OF k] ready [OF k] neq nth
      show ?thesis by (simp add: ready_after_def)
    next
      case False
      with flag [OF k] ready [OF k] neq nth e show ?thesis
        by (auto simp: ready_after_def)
    qed
  qed
  then have sel: "?sel = ?win"
    unfolding selected_filter arrivals_between_def by (auto intro!: filter_cong)
  note res = raw(4) [unfolded sel]
  have done1: "remaining_time p = e \<Longrightarrow>
      completed s1 = completed s + 1 \<and>
      temp s1 = (temp s)[?i0 := p\<lparr>start_time := a, response_time := b,
             remaining_time := 0, completion_time := ?t + e,
             turnaround_time := ?t + e - arrival_time p,
             waiting_time := (?t + e - arrival_time p) - burst_time p\<rparr>] \<and>
      queue s1 = queue s @ ?win \<and> in_queue s1 = mark_queued ?win ?inq0"
    using res c(4) by simp
  have more1: "remaining_time p \<noteq> e \<Longrightarrow>
      completed s1 = completed s \<and> temp s1 = ?tmp \<and>
      queue s1 = queue s @ ?win @ [idx] \<and>
      in_queue s1 = (mark_queued ?win ?inq0)[?i0 := 1]"
    using res by (simp only: if_False)
  have win_rng: "0 \<le> x \<and> nat x < ?n" if "x \<in> set ?win" for x
    using that by (auto simp: arrivals_between_def)
  have win_dist: "distinct ?win" unfolding sel [symmetric] by (rule selected_distinct)
  have win_new: "x \<notin> set (ready_queue s)" if "x \<in> set ?win" for x
  proof -
    from win_rng [OF that] have k: "nat x < ?n" and x: "int (nat x) = x" by simp_all
    from that x win_mem [OF k] ready [OF k] show ?thesis by auto
  qed
  show rq1: "ready_queue s1 = ?rest @ ?win @ (if remaining_time p = e then [] else [idx])"
    using done1 more1 lt f1 rest by (cases "remaining_time p = e") (simp_all add: ready_queue_def)
  show tmp1: "\<exists>a b. temp s1 = (temp s)[?i0 :=
           (if remaining_time p = e
            then p\<lparr>start_time := a, response_time := b, remaining_time := 0,
                   completion_time := ?t + e,
                   turnaround_time := ?t + e - arrival_time p,
                   waiting_time := (?t + e - arrival_time p) - burst_time p\<rparr>
            else p\<lparr>start_time := a, response_time := b,
                   remaining_time := remaining_time p - e\<rparr>)]"
    using done1 more1
    by (intro exI [of _ a] exI [of _ b]) (cases "remaining_time p = e", simp_all)
  have si1: "sched_inv reg s1"
  proof (cases "remaining_time p = e")
    case True
    show ?thesis
    proof (rule sched_inv_completed [OF si _ _ _ _ t1, where i = ?i0 and a = a and b = b])
      from i0 show "?i0 < ?n" by simp
      from arr show "arrival_time (temp s ! ?i0) \<le> ?t" by (simp add: p_def)
      from e show "0 < e" by simp
      from True show "e = remaining_time (temp s ! ?i0)" by (simp add: p_def)
      from done1 [OF True] show "completed s1 = completed s + 1" by simp
      from done1 [OF True] show "temp s1 = (temp s)[?i0 := (temp s ! ?i0)
          \<lparr>start_time := a, response_time := b, remaining_time := 0,
           completion_time := ?t + e,
           turnaround_time := ?t + e - arrival_time (temp s ! ?i0),
           waiting_time := (?t + e - arrival_time (temp s ! ?i0))
                             - burst_time (temp s ! ?i0)\<rparr>]"
        by (simp add: p_def)
    qed
  next
    case False
    show ?thesis
    proof (rule sched_inv_served [OF si _ _ _ _ t1, where i = ?i0 and a = a and b = b])
      from i0 show "?i0 < ?n" by simp
      from arr show "arrival_time (temp s ! ?i0) \<le> ?t" by (simp add: p_def)
      from e show "0 < e" by simp
      from False e show "e < remaining_time (temp s ! ?i0)" by (simp add: p_def)
      from more1 [OF False] show "completed s1 = completed s" by simp
      from more1 [OF False] show "temp s1 = (temp s)[?i0 := (temp s ! ?i0)
          \<lparr>start_time := a, response_time := b,
           remaining_time := remaining_time (temp s ! ?i0) - e\<rparr>]"
        by (simp add: p_def)
    qed
  qed
  have n1: "length (temp s1) = ?n"
    using done1 more1 by (cases "remaining_time p = e") simp_all
  have liq: "length (in_queue s1) = length (in_queue s)"
    using done1 more1 by (cases "remaining_time p = e") (simp_all add: mark_queued_length)
  have other: "temp s1 ! i = temp s ! i" if "i \<noteq> ?i0" for i
    using done1 more1 that by (cases "remaining_time p = e") simp_all
  have own: "arrival_time (temp s1 ! ?i0) = arrival_time p \<and>
             remaining_time (temp s1 ! ?i0) = remaining_time p - e"
    using done1 more1 i0 by (cases "remaining_time p = e") simp_all
  have inq1: "in_queue s1 = (if remaining_time p = e then mark_queued ?win ?inq0
                             else (mark_queued ?win ?inq0)[?i0 := 1])"
    using done1 more1 by (cases "remaining_time p = e") simp_all
  have win_nat: "i \<in> nat ` set ?win \<longleftrightarrow> int i \<in> set ?win" for i
    using selected_nat_image [of i "ready_after (?t + e) idx" ?tmp ?inq0] unfolding sel .
  have idx_win: "idx \<notin> set ?win" using win_new [of idx] idx_in by blast
  have mq: "mark_queued ?win ?inq0 ! i = (if int i \<in> set ?win then 1 else ?inq0 ! i)"
    if "i < ?n" for i
    using that len by (simp add: mark_queued_nth win_nat)
  have flag1: "in_queue s1 ! i \<noteq> 0 \<longleftrightarrow> int i \<in> set (ready_queue s1)" if i: "i < ?n" for i
  proof (cases "i = ?i0")
    case True
    with i len have "in_queue s1 ! i = (if remaining_time p = e then 0 else 1)"
      using mq [OF i] idx_win int_i0 by (simp add: inq1 mark_queued_length)
    with True int_i0 idx_rest idx_win show ?thesis unfolding rq1 by simp
  next
    case False
    with int_i0 have neq: "int i \<noteq> idx" by auto
    from False i len have "in_queue s1 ! i = mark_queued ?win ?inq0 ! i"
      by (simp add: inq1)
    with mq [OF i] False
    have "in_queue s1 ! i \<noteq> 0 \<longleftrightarrow> int i \<in> set ?win \<or> in_queue s ! i \<noteq> 0"
      by simp
    with flag [OF i] in_rest [of "int i"] neq show ?thesis unfolding rq1 by auto
  qed
  have ready1: "int i \<in> set (ready_queue s1) \<longleftrightarrow>
      arrival_time (temp s1 ! i) \<le> current_time s1 \<and> remaining_time (temp s1 ! i) > 0"
    if i: "i < ?n" for i
  proof (cases "i = ?i0")
    case True
    from win_new [of idx] idx_in have "idx \<notin> set ?win" by blast
    with True own arr e int_i0 idx_rest t1 show ?thesis unfolding rq1 by auto
  next
    case False
    with int_i0 have neq: "int i \<noteq> idx" by auto
    have "0 < remaining_time (temp s ! i)" if "?t < arrival_time (temp s ! i)"
      using job_inv_unserved [OF ji [OF i] that] by simp
    with other [OF False] neq win_mem [OF i] ready [OF i] in_rest [of "int i"] t1 e
    show ?thesis unfolding rq1 by auto
  qed
  have dist1: "distinct (ready_queue s1)"
    unfolding rq1
    using dist rq win_dist win_new idx_rest in_rest idx_in
    by (auto simp: distinct_tl)
  have rng1: "0 \<le> x \<and> nat x < length (temp s1)" if "x \<in> set (ready_queue s1)" for x
    using that rng win_rng i0 in_rest n1 unfolding rq1 by (auto split: if_splits)
  from lt f1 done1 more1 have fr1: "front s1 \<le> length (queue s1)"
    by (cases "remaining_time p = e") simp_all
  show "rr_inv reg s1"
    unfolding rr_inv_def
    using si1 len liq n1 fr1 lq1 dist1 rng1 flag1 ready1 by auto
  from tmp1 obtain q where "temp s1 = (temp s)[?i0 := q]"
    and "remaining_time q = remaining_time (temp s ! ?i0) - e"
    by (auto simp: p_def split: if_splits)
  from clock_inv_served [OF clock _ _ _ t1 this] i0 e' show "clock_inv reg s1"
    by (simp add: p_def)
qed


lemma rr_body_inv:
  assumes "rr_inv reg s" and "clock_inv reg s" and "completed s < int (length (temp s))"
    and "rr_body s = Inr s1"
  shows "rr_inv reg s1 \<and> clock_inv reg s1"
proof (cases "front s = length (queue s)")
  case True
  with assms(4) have "rr_idle s = Inr s1" by (simp add: rr_body_def)
  from rr_idle_inv(1,2) [OF assms(1-3) True this] show ?thesis by simp
next
  case False
  with assms(4) have "rr_run s = Inr s1" by (simp add: rr_body_def)
  from rr_run_step(7,8) [OF assms(1,2) False this] show ?thesis by simp
qed

lemma rr_reaches_inv:
  assumes "valid_registry reg" and "clock_fits reg" and "rr_reaches reg s"
  shows "rr_inv reg s \<and> clock_inv reg s"
  using assms(3)
proof (induction rule: rr_reaches.induct)
  case (start s)
  from start have "temp s = reg" "current_time s = 0"
    by (auto simp: rr_init_def split: sum.splits)
  with assms(1,2) have "clock_inv reg s" by (intro clock_inv_init)
  with rr_init_inv [OF assms(1) start] show ?case by simp
next
  case (step s s')
  from step.IH have "rr_inv reg s" "clock_inv reg s" by simp_all
  from rr_body_inv [OF this step.hyps(2,3)] show ?case .
qed

lemma rr_loop_invariant:
  assumes run: "rr_loop s = Some (Inr s')"
    and init: "I s"
    and step: "\<And>a b. I a \<Longrightarrow> completed a < int (length (temp a)) \<Longrightarrow>
                 rr_body a = Inr b \<Longrightarrow> I b"
  shows "I s' \<and> \<not> completed s' < int (length (temp s'))"
proof -
  have "I s \<longrightarrow> (\<forall>s'. r = Inr s' \<longrightarrow> I s' \<and> \<not> completed s' < int (length (temp s')))"
    if "rr_loop s = Some r" for r
  proof (rule rr_loop.raw_induct
      [where P = "\<lambda>s r. I s \<longrightarrow> (\<forall>s'. r = Inr s' \<longrightarrow>
          I s' \<and> \<not> completed s' < int (length (temp s')))", OF _ that])
    fix f :: "rstate \<Rightarrow> (fault + rstate) option" and a r
    assume IH: "\<And>x y. f x = Some y \<Longrightarrow> I x \<longrightarrow> (\<forall>s'. y = Inr s' \<longrightarrow>
          I s' \<and> \<not> completed s' < int (length (temp s')))"
      and eq: "(if completed a < int (length (temp a))
                then case rr_body a of Inl f \<Rightarrow> Some (Inl f) | Inr s' \<Rightarrow> f s'
                else Some (Inr a)) = Some r"
    show "I a \<longrightarrow> (\<forall>s'. r = Inr s' \<longrightarrow> I s' \<and> \<not> completed s' < int (length (temp s')))"
    proof (cases "completed a < int (length (temp a))")
      case False
      with eq show ?thesis by auto
    next
      case True
      show ?thesis
      proof (cases "rr_body a")
        case (Inl e)
        with True eq show ?thesis by auto
      next
        case (Inr b)
        with True eq have "f b = Some r" by simp
        from IH [OF this] step [OF _ True Inr] show ?thesis by blast
      qed
    qed
  qed
  with run init show ?thesis by blast
qed

lemma round_robin_scheduling_all_done:
  assumes "valid_registry reg" and "clock_fits reg"
    and "round_robin_scheduling reg = Some (Inr (m, out))"
  shows "all_done reg out"
proof -
  from assms(1) have "copy_in reg = Inr reg" by (simp add: copy_in_def valid_registry_def)
  with assms(3) obtain s0 where init: "rr_init reg = Inr s0"
    by (cases "rr_init reg") (auto simp: round_robin_scheduling_def)
  with assms(3) \<open>copy_in reg = Inr reg\<close>
  obtain s where run: "rr_loop s0 = Some (Inr s)" and out: "out = temp s"
    by (cases "rr_loop s0") (auto simp: round_robin_scheduling_def split: sum.splits)
  from rr_reaches_inv [OF assms(1,2) rr_reaches.start [OF init]]
  have "rr_inv reg s0 \<and> clock_inv reg s0" .
  from rr_loop_invariant [OF run, of "\<lambda>s. rr_inv reg s \<and> clock_inv reg s", OF this]
    rr_body_inv
  have "rr_inv reg s \<and> \<not> completed s < int (length (temp s))" by blast
  then have "all_done reg (temp s)" by (intro sched_inv_exit) (simp_all add: rr_inv_def)
  with out show ?thesis by simp
qed

subsection \<open>The timing fields after a run\<close>

lemma all_done_job:
  assumes "all_done reg out" and "p \<in> set out"
  shows "is_complete p \<and>
         turnaround_time p = completion_time p - arrival_time p \<and>
         waiting_time p = turnaround_time p - burst_time p \<and>
         0 \<le> waiting_time p \<and> burst_time p \<le> turnaround_time p"
  using assms by (auto simp: all_done_def timing_ok_def)

lemma long_pair_valid: "valid_registry long_pair"
  by (simp add: valid_registry_def long_pair_def initialised_def valid_job_def new_process_def)

lemma long_pair_loop: "fcfs_loop 0 0 long_pair [] = (- 2147483648, 2, long_pair_run)"
  by (simp add: long_pair_def long_pair_run_def new_process_def fcfs_body_def int32_def
      Let_def)

text \<open>
  Claim C1 (fails on the code where the clock passes \<^verbatim>\<open>INT_MAX\<close>). \<open>long_pair\<close> is a
  registry of two valid jobs, and first come first served returns \<open>long_pair_run\<close> for it:
  both jobs have run to the end, and the second completed as the clock wrapped around. Its
  completion time and its turnaround time are \<open>-2147483648\<close>, below its burst time of 1.
\<close>

theorem timing_fields_counterexample:
  "valid_registry long_pair \<and>
   \<not> isl (fcfs_scheduling long_pair) \<and>
   snd (projr (fcfs_scheduling long_pair)) = long_pair_run \<and>
   remaining_time (long_pair_run ! 1) = 0 \<and>
   turnaround_time (long_pair_run ! 1) = - 2147483648 \<and>
   turnaround_time (long_pair_run ! 1) < burst_time (long_pair_run ! 1)"
proof -
  have "length long_pair \<le> MAX_PROCESSES" by (simp add: long_pair_def)
  from fcfs_scheduling_run [OF this long_pair_loop]
  have "\<not> isl (fcfs_scheduling long_pair) \<and>
        snd (projr (fcfs_scheduling long_pair)) = long_pair_run"
    by auto
  moreover have "remaining_time (long_pair_run ! 1) = 0 \<and>
      turnaround_time (long_pair_run ! 1) = - 2147483648 \<and>
      turnaround_time (long_pair_run ! 1) < burst_time (long_pair_run ! 1)"
    by (simp add: long_pair_run_def)
  ultimately show ?thesis using long_pair_valid by blast
qed

text \<open>
  Claim C1, amended. On a registry of at most 20 valid jobs, built as the scenarios build
  them, whose latest arrival time and burst times add up to \<^verbatim>\<open>INT_MAX\<close> at most, take any
  of the four algorithms and the job list \<open>out\<close> that it returns. Every job \<open>p\<close> of \<open>out\<close> is
  completed, and its turnaround time is completion minus arrival, its waiting time is
  turnaround minus burst, its waiting time is not negative and its turnaround time is at
  least its burst time.
\<close>

theorem timing_fields_consistent:
  assumes "valid_registry reg" and "clock_fits reg"
    and "priority_scheduling reg = Some (Inr (m, out, evs)) \<or>
         fcfs_scheduling reg = Inr (m, out) \<or>
         sjf_scheduling reg = Some (Inr (m, out)) \<or>
         round_robin_scheduling reg = Some (Inr (m, out))"
    and "p \<in> set out"
  shows "is_complete p \<and>
         turnaround_time p = completion_time p - arrival_time p \<and>
         waiting_time p = turnaround_time p - burst_time p \<and>
         0 \<le> waiting_time p \<and> burst_time p \<le> turnaround_time p"
proof -
  from assms(1,2,3) have "all_done reg out"
    using priority_scheduling_all_done fcfs_scheduling_all_done sjf_scheduling_all_done
      round_robin_scheduling_all_done by blast
  from all_done_job [OF this assms(4)] show ?thesis .
qed

lemma three_jobs_valid: "valid_registry three_jobs"
  by code_simp

lemma three_jobs_fit: "clock_fits three_jobs"
  by (simp add: clock_fits_def last_arrival_def three_jobs_def new_process_def)

lemma three_jobs_fcfs_loop:
  "(case fcfs_loop 0 0 three_jobs [] of (t, cs, out) \<Rightarrow> length out = 3)"
  by code_simp

lemma three_jobs_sjf_loop:
  "(case sjf_loop \<lparr>temp = three_jobs, current_time = 0, completed = 0, switches = 0,
                    is_completed = replicate MAX_PROCESSES 0\<rparr> of
      Some s \<Rightarrow> length (temp s) = 3 | None \<Rightarrow> False)"
  by code_simp

lemma three_jobs_rr_loop:
  "(case rr_init three_jobs of
      Inr s0 \<Rightarrow> (case rr_loop s0 of Some (Inr s) \<Rightarrow> length (temp s) = 3 | _ \<Rightarrow> False)
    | Inl f \<Rightarrow> False)"
  by code_simp

theorem timing_fields_consistent_witness:
  "valid_registry three_jobs \<and> clock_fits three_jobs \<and>
   (\<exists>m out evs. priority_scheduling three_jobs = Some (Inr (m, out, evs)) \<and>
      length out = 3 \<and> is_complete (out ! 0) \<and> waiting_time (out ! 0) = 5 \<and>
      turnaround_time (out ! 0) = completion_time (out ! 0) - arrival_time (out ! 0)) \<and>
   (\<exists>m out. fcfs_scheduling three_jobs = Inr (m, out) \<and>
      length out = 3 \<and> is_complete (out ! 1) \<and> 0 \<le> waiting_time (out ! 1)) \<and>
   (\<exists>m out. sjf_scheduling three_jobs = Some (Inr (m, out)) \<and>
      length out = 3 \<and> is_complete (out ! 2) \<and> burst_time (out ! 2) \<le> turnaround_time (out ! 2)) \<and>
   (\<exists>m out. round_robin_scheduling three_jobs = Some (Inr (m, out)) \<and>
      length out = 3 \<and> is_complete (out ! 0) \<and>
      waiting_time (out ! 0) = turnaround_time (out ! 0) - burst_time (out ! 0))"
proof -
  have v: "valid_registry three_jobs" by (rule three_jobs_valid)
  have c: "clock_fits three_jobs" by (rule three_jobs_fit)
  have n: "length three_jobs \<le> MAX_PROCESSES" by (simp add: three_jobs_length)
  from three_jobs_priority_loop obtain s1
    where "priority_loop \<lparr>temp = three_jobs, current_time = 0, completed = 0,
             switches = 0, is_running = -1, events = []\<rparr> = Some (Inr s1)"
      and m1: "map (\<lambda>p. (pid p, response_time p, turnaround_time p, waiting_time p)) (temp s1) =
           [(0, 0, 10, 5), (1, 0, 2, 0), (2, 0, 3, 0)]"
    by (auto split: option.splits sum.splits)
  from priority_scheduling_run [OF n this(1)] obtain m1
    where p: "priority_scheduling three_jobs = Some (Inr (m1, temp s1, events s1))"
    by blast
  from m1 have "length (map (\<lambda>p. (pid p, response_time p, turnaround_time p, waiting_time p))
      (temp s1)) = 3" by simp
  then have p3: "length (temp s1) = 3" by simp
  from m1 have "map (\<lambda>p. (pid p, response_time p, turnaround_time p, waiting_time p))
      (temp s1) ! 0 = (0, 0, 10, 5)" by simp
  with p3 have p5: "waiting_time (temp s1 ! 0) = 5" by simp
  obtain t2 cs2 out2 where l2: "fcfs_loop 0 0 three_jobs [] = (t2, cs2, out2)"
    by (cases "fcfs_loop 0 0 three_jobs []") auto
  with three_jobs_fcfs_loop have f3: "length out2 = 3" by simp
  from fcfs_scheduling_run [OF n l2] obtain m2
    where f: "fcfs_scheduling three_jobs = Inr (m2, out2)" by blast
  from three_jobs_sjf_loop obtain s3
    where "sjf_loop \<lparr>temp = three_jobs, current_time = 0, completed = 0, switches = 0,
             is_completed = replicate MAX_PROCESSES 0\<rparr> = Some s3"
      and s3: "length (temp s3) = 3"
    by (auto split: option.splits)
  from sjf_scheduling_run [OF n this(1)] obtain m3
    where s: "sjf_scheduling three_jobs = Some (Inr (m3, temp s3))" by blast
  from three_jobs_rr_loop obtain s0 s4
    where i4: "rr_init three_jobs = Inr s0" and l4: "rr_loop s0 = Some (Inr s4)"
      and r3: "length (temp s4) = 3"
    by (rule rr_run_cases)
  from round_robin_scheduling_run [OF n i4 l4] obtain m4
    where r: "round_robin_scheduling three_jobs = Some (Inr (m4, temp s4))" by blast
  from timing_fields_consistent [OF v c, of m1 "temp s1" "events s1" "temp s1 ! 0"] p p3
  have 1: "is_complete (temp s1 ! 0) \<and>
      turnaround_time (temp s1 ! 0) = completion_time (temp s1 ! 0) - arrival_time (temp s1 ! 0)"
    by simp
  from timing_fields_consistent [OF v c, of m2 out2 _ "out2 ! 1"] f f3
  have 2: "is_complete (out2 ! 1) \<and> 0 \<le> waiting_time (out2 ! 1)" by simp
  from timing_fields_consistent [OF v c, of m3 "temp s3" _ "temp s3 ! 2"] s s3
  have 3: "is_complete (temp s3 ! 2) \<and> burst_time (temp s3 ! 2) \<le> turnaround_time (temp s3 ! 2)"
    by simp
  from timing_fields_consistent [OF v c, of m4 "temp s4" _ "temp s4 ! 0"] r r3
  have 4: "is_complete (temp s4 ! 0) \<and>
      waiting_time (temp s4 ! 0) = turnaround_time (temp s4 ! 0) - burst_time (temp s4 ! 0)"
    by simp
  from v c p p3 p5 1 f f3 2 s s3 3 r r3 4 show ?thesis by blast
qed

subsection \<open>The order of the ready queue of round robin\<close>

lemma late_pair_valid: "valid_registry late_pair"
  by (simp add: valid_registry_def late_pair_def initialised_def valid_job_def new_process_def)

lemma late_pair_start: "rr_init late_pair = Inr (late_pair_idle 0)"
  by (simp add: rr_init_def late_pair_def late_pair_idle_def new_process_def
      arrived_at_zero_def)

lemma late_pair_idle_step:
  assumes "0 \<le> t" and "t < 2147483645"
  shows "rr_body (late_pair_idle t) = Inr (late_pair_idle (t + 1))"
proof -
  from assms have "int32 (t + 1) = t + 1" by (simp add: int32_id)
  with assms show ?thesis
    by (simp add: rr_body_def rr_idle_def late_pair_idle_def late_pair_def new_process_def
        ready_idle_def Let_def)
qed

lemma late_pair_idle_reached:
  "k \<le> 2147483645 \<Longrightarrow> rr_reaches late_pair (late_pair_idle (int k))"
proof (induction k)
  case 0
  from late_pair_start show ?case by (simp add: rr_reaches.start)
next
  case (Suc k)
  then have r: "rr_reaches late_pair (late_pair_idle (int k))" by simp
  have c: "completed (late_pair_idle (int k)) < int (length (temp (late_pair_idle (int k))))"
    by (simp add: late_pair_idle_def late_pair_def)
  from Suc.prems have "rr_body (late_pair_idle (int k)) = Inr (late_pair_idle (int k + 1))"
    by (intro late_pair_idle_step) simp_all
  from rr_reaches.step [OF r c this] show ?case by (simp add: add.commute)
qed

lemma late_pair_arrival: "rr_body (late_pair_idle 2147483645) = Inr late_pair_rr0"
  by (simp add: rr_body_def rr_idle_def late_pair_idle_def late_pair_rr0_def late_pair_def
      new_process_def ready_idle_def enqueue_def int32_def Let_def)

lemma late_pair_rr0_reached: "rr_reaches late_pair late_pair_rr0"
proof -
  have r: "rr_reaches late_pair (late_pair_idle (int 2147483645))"
    by (rule late_pair_idle_reached) simp
  have c: "completed (late_pair_idle (int 2147483645)) <
      int (length (temp (late_pair_idle (int 2147483645))))"
    by (simp add: late_pair_idle_def late_pair_def)
  from late_pair_arrival
  have "rr_body (late_pair_idle (int 2147483645)) = Inr late_pair_rr0" by simp
  from rr_reaches.step [OF r c this] show ?thesis .
qed

lemma late_pair_quantum: "rr_body late_pair_rr0 = Inr late_pair_rr1"
  by (simp add: rr_body_def rr_run_def late_pair_rr0_def late_pair_rr1_def late_pair_def
      new_process_def ready_after_def enqueue_def int32_def Let_def)

text \<open>
  Claim C8 (fails on the code where the clock passes \<^verbatim>\<open>INT_MAX\<close>). On the two valid jobs
  of \<open>late_pair\<close> the loop of round robin reaches the state \<open>late_pair_rr0\<close>: the clock is
  2147483646 and job 0, with 8 units to run, is alone in the ready queue. Its quantum of 4
  units covers the arrival of job 1 at 2147483647. The clock wraps around to
  \<open>-2147483646\<close>, job 1 is not enqueued, and the ready queue after the iteration is \<open>[0]\<close>:
  the job that just ran, with no fresh arrival ahead of it.
\<close>

theorem round_robin_requeue_counterexample:
  "valid_registry late_pair \<and> rr_reaches late_pair late_pair_rr0 \<and>
   front late_pair_rr0 \<noteq> length (queue late_pair_rr0) \<and>
   rr_body late_pair_rr0 = Inr late_pair_rr1 \<and>
   ready_queue late_pair_rr0 = [0] \<and> current_time late_pair_rr0 = 2147483646 \<and>
   remaining_time (temp late_pair_rr0 ! 0) = 8 \<and>
   arrival_time (temp late_pair_rr0 ! 1) = 2147483647 \<and>
   remaining_time (temp late_pair_rr1 ! 1) = 1 \<and>
   current_time late_pair_rr1 = - 2147483646 \<and> ready_queue late_pair_rr1 = [0]"
proof -
  have "front late_pair_rr0 \<noteq> length (queue late_pair_rr0) \<and>
   ready_queue late_pair_rr0 = [0] \<and> current_time late_pair_rr0 = 2147483646 \<and>
   remaining_time (temp late_pair_rr0 ! 0) = 8 \<and>
   arrival_time (temp late_pair_rr0 ! 1) = 2147483647 \<and>
   remaining_time (temp late_pair_rr1 ! 1) = 1 \<and>
   current_time late_pair_rr1 = - 2147483646 \<and> ready_queue late_pair_rr1 = [0]"
    by (simp add: late_pair_rr0_def late_pair_rr1_def late_pair_def new_process_def
        ready_queue_def)
  with late_pair_valid late_pair_rr0_reached late_pair_quantum show ?thesis by blast
qed

text \<open>
  Claim C8, amended. Take a valid registry whose latest arrival time and burst times add up
  to \<^verbatim>\<open>INT_MAX\<close> at most, any state \<open>s\<close> at the head of the loop in a round-robin run on
  it, with a non-empty ready queue, and the state \<open>s1\<close> after the iteration. The job \<open>idx\<close>
  at the front of the queue runs for \<open>e = min remaining_time TIME_QUANTUM\<close> units. The new
  ready queue is the rest of the old one, then the jobs whose arrival fell in the window
  from \<open>current_time\<close> (excluded) to \<open>current_time + e\<close> (included), then \<open>idx\<close> itself if
  and only if it still needs service. If it needs none, its completion fields are computed
  at the new clock; if it does, they are left alone.
\<close>

theorem round_robin_requeue_order:
  assumes "valid_registry reg" and "clock_fits reg" and "rr_reaches reg s"
    and "front s \<noteq> length (queue s)" and "rr_body s = Inr s1"
  shows "let idx = queue s ! front s; p = temp s ! nat idx;
             e = min (remaining_time p) TIME_QUANTUM; p' = temp s1 ! nat idx
         in ready_queue s = idx # tl (ready_queue s) \<and>
            current_time s1 = current_time s + e \<and>
            remaining_time p' = remaining_time p - e \<and>
            ready_queue s1 =
              tl (ready_queue s) @
              arrivals_between (temp s) (current_time s) (current_time s + e) @
              (if 0 < remaining_time p' then [idx] else []) \<and>
            (if 0 < remaining_time p'
             then completion_time p' = completion_time p
             else completion_time p' = current_time s1 \<and>
                  turnaround_time p' = current_time s1 - arrival_time p \<and>
                  waiting_time p' = turnaround_time p' - burst_time p)"
proof -
  define idx where "idx = queue s ! front s"
  define p where "p = temp s ! nat idx"
  define e where "e = (if remaining_time p > TIME_QUANTUM then TIME_QUANTUM else remaining_time p)"
  have e_min: "e = min (remaining_time p) TIME_QUANTUM" by (simp add: e_def min_def)
  from rr_reaches_inv [OF assms(1,2,3)]
  have inv: "rr_inv reg s" and clock: "clock_inv reg s" by simp_all
  from assms(4,5) have run: "rr_run s = Inr s1" by (simp add: rr_body_def)
  note st = rr_run_step [OF inv clock assms(4) run, folded idx_def, folded p_def,
      folded e_def]
  from st(6) obtain a b where tmp: "temp s1 = (temp s)[nat idx :=
           (if remaining_time p = e
            then p\<lparr>start_time := a, response_time := b, remaining_time := 0,
                   completion_time := current_time s + e,
                   turnaround_time := current_time s + e - arrival_time p,
                   waiting_time := (current_time s + e - arrival_time p) - burst_time p\<rparr>
            else p\<lparr>start_time := a, response_time := b,
                   remaining_time := remaining_time p - e\<rparr>)]"
    by blast
  let ?p' = "temp s1 ! nat idx"
  from tmp st(2) have p': "?p' =
           (if remaining_time p = e
            then p\<lparr>start_time := a, response_time := b, remaining_time := 0,
                   completion_time := current_time s + e,
                   turnaround_time := current_time s + e - arrival_time p,
                   waiting_time := (current_time s + e - arrival_time p) - burst_time p\<rparr>
            else p\<lparr>start_time := a, response_time := b,
                   remaining_time := remaining_time p - e\<rparr>)"
    by simp
  from p' st(3) have rem': "remaining_time ?p' = remaining_time p - e" by auto
  with st(3) have pos: "0 < remaining_time ?p' \<longleftrightarrow> remaining_time p \<noteq> e" by auto
  have "ready_queue s = idx # tl (ready_queue s)" by (rule st(1))
  moreover have "current_time s1 = current_time s + e" by (rule st(4))
  moreover have "ready_queue s1 =
              tl (ready_queue s) @
              arrivals_between (temp s) (current_time s) (current_time s + e) @
              (if 0 < remaining_time ?p' then [idx] else [])"
    using st(5) pos by simp
  moreover have "if 0 < remaining_time ?p'
             then completion_time ?p' = completion_time p
             else completion_time ?p' = current_time s1 \<and>
                  turnaround_time ?p' = current_time s1 - arrival_time p \<and>
                  waiting_time ?p' = turnaround_time ?p' - burst_time p"
    using p' pos st(4) by auto
  ultimately show ?thesis
    using rem' unfolding Let_def idx_def [symmetric] p_def [symmetric] e_min [symmetric]
    by blast
qed

lemma three_jobs_rr0_start: "rr_init three_jobs = Inr three_jobs_rr0"
  by code_simp

lemma three_jobs_rr1_step: "rr_body three_jobs_rr0 = Inr three_jobs_rr1"
  by code_simp

theorem round_robin_requeue_order_witness:
  "valid_registry three_jobs \<and> clock_fits three_jobs \<and>
   rr_reaches three_jobs three_jobs_rr0 \<and>
   front three_jobs_rr0 \<noteq> length (queue three_jobs_rr0) \<and>
   rr_body three_jobs_rr0 = Inr three_jobs_rr1 \<and>
   ready_queue three_jobs_rr0 = [0] \<and>
   current_time three_jobs_rr1 = 4 \<and>
   arrivals_between three_jobs 0 4 = [1, 2] \<and>
   ready_queue three_jobs_rr1 = [1, 2, 0] \<and>
   remaining_time (temp three_jobs_rr1 ! 0) = 1"
proof -
  have v: "valid_registry three_jobs" by (rule three_jobs_valid)
  have c: "clock_fits three_jobs" by (rule three_jobs_fit)
  have r: "rr_reaches three_jobs three_jobs_rr0"
    by (rule rr_reaches.start) (rule three_jobs_rr0_start)
  have f: "front three_jobs_rr0 \<noteq> length (queue three_jobs_rr0)"
    by (simp add: three_jobs_rr0_def)
  have a: "arrivals_between three_jobs 0 4 = [1, 2]" by code_simp
  have q: "ready_queue three_jobs_rr0 = [0]" by code_simp
  have i: "queue three_jobs_rr0 ! front three_jobs_rr0 = 0"
    "temp three_jobs_rr0 = three_jobs" "current_time three_jobs_rr0 = 0"
    "remaining_time (three_jobs ! 0) = 5"
    by (simp_all add: three_jobs_rr0_def three_jobs_def new_process_def)
  from round_robin_requeue_order [OF v c r f three_jobs_rr1_step] i a
  have "current_time three_jobs_rr1 = 4 \<and>
        remaining_time (temp three_jobs_rr1 ! 0) = 1 \<and>
        ready_queue three_jobs_rr1 = [1, 2, 0]"
    by (simp add: Let_def q)
  with v c r f three_jobs_rr1_step q a show ?thesis by simp
qed

subsection \<open>The selection of shortest job first\<close>



subsection \<open>Jobs that the specification calls invalid\<close>

lemma priority_body_descriptor:
  assumes "priority_body s = Inr s1"
  shows "map descriptor (temp s1) = map descriptor (temp s)"
  using priority_body_step [OF assms]
  by (auto simp: map_descriptor_update descriptor_def split: if_splits)

lemma sjf_body_descriptor: "map descriptor (temp (sjf_body s)) = map descriptor (temp s)"
proof -
  obtain nx sh
    where scan: "sjf_scan (current_time s) (is_completed s) (temp s) 0 (-1, 999999) = (nx, sh)"
    by (cases "sjf_scan (current_time s) (is_completed s) (temp s) 0 (-1, 999999)")
  show ?thesis
  proof (cases "nx = -1")
    case True
    from sjf_body_idle [OF scan True] show ?thesis by simp
  next
    case False
    from sjf_body_dispatch [OF scan False] show ?thesis
      by (simp add: map_descriptor_update descriptor_def)
  qed
qed

lemma rr_body_descriptor:
  assumes "rr_body s = Inr s1"
  shows "map descriptor (temp s1) = map descriptor (temp s)"
proof (cases "front s = length (queue s)")
  case True
  with assms have "rr_idle s = Inr s1" by (simp add: rr_body_def)
  from rr_idle_result [OF this] show ?thesis by simp
next
  case False
  with assms have "rr_run s = Inr s1" by (simp add: rr_body_def)
  from rr_run_result [OF this] show ?thesis
    by (auto simp: Let_def map_descriptor_update descriptor_def split: if_splits)
qed

lemma priority_scheduling_descriptor:
  assumes "priority_scheduling reg = Some (Inr (m, out, evs))"
  shows "map descriptor out = map descriptor reg"
proof -
  let ?s0 = "\<lparr>temp = reg, current_time = 0, completed = 0, switches = 0,
              is_running = -1, events = []\<rparr>"
  from assms have "copy_in reg = Inr reg"
    by (auto simp: priority_scheduling_def copy_in_def split: if_splits)
  with assms obtain s where run: "priority_loop ?s0 = Some (Inr s)" and out: "out = temp s"
    by (cases "priority_loop ?s0") (auto simp: priority_scheduling_def split: sum.splits)
  from priority_loop_invariant
    [OF run, of "\<lambda>s. map descriptor (temp s) = map descriptor reg"]
    priority_body_descriptor
  have "map descriptor (temp s) = map descriptor reg" by simp
  with out show ?thesis by simp
qed

lemma sjf_scheduling_descriptor:
  assumes "sjf_scheduling reg = Some (Inr (m, out))"
  shows "map descriptor out = map descriptor reg"
proof -
  let ?s0 = "\<lparr>temp = reg, current_time = 0, completed = 0, switches = 0,
              is_completed = replicate MAX_PROCESSES 0\<rparr>"
  from assms have "copy_in reg = Inr reg"
    by (auto simp: sjf_scheduling_def copy_in_def split: if_splits)
  with assms obtain s where run: "sjf_loop ?s0 = Some s" and out: "out = temp s"
    by (cases "sjf_loop ?s0") (auto simp: sjf_scheduling_def)
  from sjf_loop_invariant [OF run, of "\<lambda>s. map descriptor (temp s) = map descriptor reg"]
    sjf_body_descriptor
  have "map descriptor (temp s) = map descriptor reg" by simp
  with out show ?thesis by simp
qed

lemma round_robin_scheduling_descriptor:
  assumes "round_robin_scheduling reg = Some (Inr (m, out))"
  shows "map descriptor out = map descriptor reg"
proof -
  from assms have c: "copy_in reg = Inr reg"
    by (auto simp: round_robin_scheduling_def copy_in_def split: if_splits)
  with assms obtain s0 where init: "rr_init reg = Inr s0"
    by (cases "rr_init reg") (auto simp: round_robin_scheduling_def)
  with assms c obtain s where run: "rr_loop s0 = Some (Inr s)" and out: "out = temp s"
    by (cases "rr_loop s0") (auto simp: round_robin_scheduling_def split: sum.splits)
  from init have "temp s0 = reg" by (auto simp: rr_init_def split: sum.splits)
  with rr_loop_invariant [OF run, of "\<lambda>s. map descriptor (temp s) = map descriptor reg"]
    rr_body_descriptor
  have "map descriptor (temp s) = map descriptor reg" by simp
  with out show ?thesis by simp
qed

lemma priority_body_waiting:
  "priority_body (waiting empty_job t) = Inr (waiting empty_job (int32 (t + 1)))"
  "priority_body (waiting unranked_job t) = Inr (waiting unranked_job (int32 (t + 1)))"
  by (simp_all add: priority_body_def waiting_def empty_job_def unranked_job_def
      new_process_def)

lemma waiting_not_done:
  "ps \<noteq> [] \<Longrightarrow> completed (waiting ps t) < int (length (temp (waiting ps t)))"
  by (simp add: waiting_def)

text \<open>A run whose every iteration is an idle tick does not return.\<close>

lemma priority_loop_waiting_aux:
  assumes "priority_loop s = Some y"
    and idle: "\<And>t. priority_body (waiting ps t) = Inr (waiting ps (int32 (t + 1)))"
    and ne: "ps \<noteq> []"
  shows "\<forall>t. s \<noteq> waiting ps t"
proof (rule priority_loop.raw_induct [where P = "\<lambda>s y. \<forall>t. s \<noteq> waiting ps t", OF _ assms(1)])
  fix f :: "pstate \<Rightarrow> (fault + pstate) option" and s y
  assume IH: "\<And>x y. f x = Some y \<Longrightarrow> \<forall>t. x \<noteq> waiting ps t"
    and step: "(if completed s < int (length (temp s))
                then case priority_body s of Inl e \<Rightarrow> Some (Inl e) | Inr s' \<Rightarrow> f s'
                else Some (Inr s)) = Some y"
  show "\<forall>t. s \<noteq> waiting ps t"
  proof
    fix t
    show "s \<noteq> waiting ps t"
    proof
      assume eq: "s = waiting ps t"
      from step have "f (waiting ps (int32 (t + 1))) = Some y"
        unfolding eq using waiting_not_done [OF ne, of t] by (simp add: idle)
      from IH [OF this] show False by blast
    qed
  qed
qed

lemma priority_empty_job_never_returns: "priority_scheduling empty_job = None"
proof -
  have "priority_loop (waiting empty_job 0) = None"
  proof (cases "priority_loop (waiting empty_job 0)")
    case (Some y)
    have "empty_job \<noteq> []" by (simp add: empty_job_def)
    from priority_loop_waiting_aux [OF Some priority_body_waiting(1) this]
    show ?thesis by blast
  qed
  then show ?thesis
    by (simp add: priority_scheduling_def copy_in_def waiting_def) (simp add: empty_job_def)
qed

text \<open>
  The same happens to a valid job whose priority number is 999 or more: the selection
  loop of \<^verbatim>\<open>priority_scheduling\<close> takes a job only if its priority number is below
  \<^verbatim>\<open>highest_priority\<close>, which starts at 999.
\<close>

lemma unranked_job_valid: "valid_registry unranked_job"
  by (simp add: valid_registry_def unranked_job_def initialised_def valid_job_def
      new_process_def)

lemma priority_unranked_job_never_returns: "priority_scheduling unranked_job = None"
proof -
  have "priority_loop (waiting unranked_job 0) = None"
  proof (cases "priority_loop (waiting unranked_job 0)")
    case (Some y)
    have "unranked_job \<noteq> []" by (simp add: unranked_job_def)
    from priority_loop_waiting_aux [OF Some priority_body_waiting(2) this]
    show ?thesis by blast
  qed
  then show ?thesis
    by (simp add: priority_scheduling_def copy_in_def waiting_def) (simp add: unranked_job_def)
qed

text \<open>
  Claim C6 (fails on the code). \<open>early_job\<close> holds a job that arrives at time \<open>-3\<close>. First
  come first served does not reject it: it starts the job at clock 0 and computes a
  response time of 3, a turnaround time of 5 and a waiting time of 3 from the raw arrival
  time.
\<close>

theorem invalid_job_counterexample:
  "arrival_time (early_job ! 0) < 0 \<and>
   fcfs_scheduling early_job =
     Inr (\<lparr>avg_response_time = 3, avg_turnaround_time = 5, avg_waiting_time = 3,
           emergency_response_min = 0, emergency_response_max = 0, cpu_utilization = 100,
           context_switches = 1, throughput = 1 / 2, total_time = 2\<rparr>,
          early_job_run)"
  by (simp add: early_job_def early_job_run_def new_process_def fcfs_scheduling_def
      copy_in_def fcfs_body_def calculate_metrics_def metrics_body_def Let_def int32_def
      fl_values)

text \<open>
  Claim C6, amended. No job is validated and no value is clamped. Whatever the arrival and
  burst times of its jobs, a registry of at most 20 jobs is run by first come first served
  to the end, with one dispatch for each job; and whenever one of the four algorithms
  returns a job list, the describing fields of every job, arrival time and burst time among
  them, are those of the registry.
\<close>

theorem jobs_not_validated:
  "(length reg \<le> MAX_PROCESSES \<longrightarrow>
      (\<exists>m out. fcfs_scheduling reg = Inr (m, out) \<and>
         context_switches m = int (length reg) \<and> map descriptor out = map descriptor reg)) \<and>
   (priority_scheduling reg = Some (Inr (m1, out1, evs)) \<longrightarrow>
      map descriptor out1 = map descriptor reg) \<and>
   (sjf_scheduling reg = Some (Inr (m3, out3)) \<longrightarrow> map descriptor out3 = map descriptor reg) \<and>
   (round_robin_scheduling reg = Some (Inr (m4, out4)) \<longrightarrow>
      map descriptor out4 = map descriptor reg)"
  using fcfs_scheduling_returns [of reg] priority_scheduling_descriptor [of reg m1 out1 evs]
    sjf_scheduling_descriptor [of reg m3 out3]
    round_robin_scheduling_descriptor [of reg m4 out4]
  by blast

lemma early_job_priority_loop:
  "(case priority_loop \<lparr>temp = early_job, current_time = 0, completed = 0, switches = 0,
                         is_running = -1, events = []\<rparr> of
      Some (Inr s) \<Rightarrow> True | _ \<Rightarrow> False)"
  by code_simp

lemma early_job_sjf_loop:
  "(case sjf_loop \<lparr>temp = early_job, current_time = 0, completed = 0, switches = 0,
                    is_completed = replicate MAX_PROCESSES 0\<rparr> of
      Some s \<Rightarrow> True | None \<Rightarrow> False)"
  by code_simp

lemma early_job_rr_loop:
  "(case rr_init early_job of
      Inr s0 \<Rightarrow> (case rr_loop s0 of Some (Inr s) \<Rightarrow> True | _ \<Rightarrow> False)
    | Inl f \<Rightarrow> False)"
  by code_simp

theorem jobs_not_validated_witness:
  "length early_job \<le> MAX_PROCESSES \<and> map arrival_time early_job = [-3] \<and>
   (\<exists>m out. fcfs_scheduling early_job = Inr (m, out) \<and> context_switches m = 1 \<and>
      map arrival_time out = [-3]) \<and>
   (\<exists>m out evs. priority_scheduling early_job = Some (Inr (m, out, evs)) \<and>
      map arrival_time out = [-3]) \<and>
   (\<exists>m out. sjf_scheduling early_job = Some (Inr (m, out)) \<and> map arrival_time out = [-3]) \<and>
   (\<exists>m out. round_robin_scheduling early_job = Some (Inr (m, out)) \<and>
      map arrival_time out = [-3])"
proof -
  have l: "length early_job \<le> MAX_PROCESSES" and a: "map arrival_time early_job = [-3]"
    by (simp_all add: early_job_def new_process_def)
  from early_job_priority_loop obtain s1
    where "priority_loop \<lparr>temp = early_job, current_time = 0, completed = 0,
             switches = 0, is_running = -1, events = []\<rparr> = Some (Inr s1)"
    by (auto split: option.splits sum.splits)
  from priority_scheduling_run [OF l this] obtain m1 out1 evs
    where p: "priority_scheduling early_job = Some (Inr (m1, out1, evs))" by blast
  from early_job_sjf_loop obtain s3
    where "sjf_loop \<lparr>temp = early_job, current_time = 0, completed = 0, switches = 0,
             is_completed = replicate MAX_PROCESSES 0\<rparr> = Some s3"
    by (auto split: option.splits)
  from sjf_scheduling_run [OF l this] obtain m3 out3
    where s: "sjf_scheduling early_job = Some (Inr (m3, out3))" by blast
  from early_job_rr_loop obtain s0 s4
    where "rr_init early_job = Inr s0" and "rr_loop s0 = Some (Inr s4)" and True
    by (rule rr_run_cases)
  from round_robin_scheduling_run [OF l this(1,2)] obtain m4 out4
    where r: "round_robin_scheduling early_job = Some (Inr (m4, out4))" by blast
  note t = jobs_not_validated [of early_job m1 out1 evs m3 out3 m4 out4]
  from t l obtain m out where f: "fcfs_scheduling early_job = Inr (m, out)"
    "context_switches m = int (length early_job)" "map descriptor out = map descriptor early_job"
    by blast
  from f(2) have cs: "context_switches m = 1" by (simp add: early_job_def)
  from descriptor_times [OF f(3)] a have fa: "map arrival_time out = [-3]" by simp
  from t p descriptor_times [of out1 early_job] a have pa: "map arrival_time out1 = [-3]"
    by simp
  from t s descriptor_times [of out3 early_job] a have sa: "map arrival_time out3 = [-3]"
    by simp
  from t r descriptor_times [of out4 early_job] a have ra: "map arrival_time out4 = [-3]"
    by simp
  from l a f(1) cs fa p pa s sa r ra show ?thesis by auto
qed

subsection \<open>The guards of calculate\_metrics\<close>


lemma fcfs_clock_back:
  "fcfs_scheduling clock_back =
     Inr (\<lparr>avg_response_time = 0, avg_turnaround_time = 5, avg_waiting_time = 0,
           emergency_response_min = 0, emergency_response_max = 0, cpu_utilization = 0,
           context_switches = 2, throughput = 0, total_time = 0\<rparr>,
          clock_back_run)"
  by (simp add: clock_back_def clock_back_run_def new_process_def fcfs_scheduling_def
      copy_in_def fcfs_body_def calculate_metrics_def metrics_body_def Let_def int32_def
      fl_zero fl_values)




subsection \<open>The emergency response times\<close>

lemma metrics_body_em:
  "em_min (metrics_body p a) =
     (if is_complete p \<and> priority p = 1 then min (em_min a) (fl (of_int (response_time p)))
      else em_min a)"
  "em_max (metrics_body p a) =
     (if is_complete p \<and> priority p = 1 then max (em_max a) (fl (of_int (response_time p)))
      else em_max a)"
  by (auto simp: metrics_body_def Let_def is_complete_def min_def max_def)

lemma emergency_responses_Cons:
  "emergency_responses (p # ps) =
     (if is_complete p \<and> priority p = 1 then response_time p # emergency_responses ps
      else emergency_responses ps)"
  by (simp add: emergency_responses_def)

text \<open>The loop takes the extrema of the response times as converted to \<^verbatim>\<open>float\<close>.\<close>

lemma em_min_loop:
  "em_min (metrics_loop ps a) =
     (if emergency_responses ps = [] then em_min a
      else min (em_min a) (Min ((\<lambda>r. fl (of_int r)) ` set (emergency_responses ps))))"
proof (induction ps arbitrary: a)
  case Nil
  then show ?case by (simp add: emergency_responses_def)
next
  case (Cons p ps)
  show ?case
  proof (cases "is_complete p \<and> priority p = 1")
    case False
    then show ?thesis by (auto simp: Cons.IH metrics_body_em emergency_responses_Cons)
  next
    case True
    then have c: "(is_complete p \<and> priority p = 1) = True" by simp
    show ?thesis
    proof (cases "emergency_responses ps = []")
      case True
      then show ?thesis
        by (simp add: Cons.IH metrics_body_em emergency_responses_Cons c)
    next
      case False
      then show ?thesis
        by (simp add: Cons.IH metrics_body_em emergency_responses_Cons c min.assoc)
    qed
  qed
qed

lemma em_max_loop:
  "em_max (metrics_loop ps a) =
     (if emergency_responses ps = [] then em_max a
      else max (em_max a) (Max ((\<lambda>r. fl (of_int r)) ` set (emergency_responses ps))))"
proof (induction ps arbitrary: a)
  case Nil
  then show ?case by (simp add: emergency_responses_def)
next
  case (Cons p ps)
  show ?case
  proof (cases "is_complete p \<and> priority p = 1")
    case False
    then show ?thesis by (auto simp: Cons.IH metrics_body_em emergency_responses_Cons)
  next
    case True
    then have c: "(is_complete p \<and> priority p = 1) = True" by simp
    show ?thesis
    proof (cases "emergency_responses ps = []")
      case True
      then show ?thesis
        by (simp add: Cons.IH metrics_body_em emergency_responses_Cons c)
    next
      case False
      then show ?thesis
        by (simp add: Cons.IH metrics_body_em emergency_responses_Cons c max.assoc)
    qed
  qed
qed

text \<open>Where the least (greatest) response time is a \<^verbatim>\<open>float\<close>, the conversion keeps it.\<close>

lemma fl_Min:
  assumes "rs \<noteq> []" and "\<bar>Min (set rs)\<bar> \<le> 16777216"
  shows "Min ((\<lambda>r. fl (of_int r)) ` set rs) = of_int (Min (set rs))"
proof (rule Min_eqI)
  show "finite ((\<lambda>r. fl (of_int r)) ` set rs)" by simp
  fix y :: real
  assume "y \<in> (\<lambda>r. fl (of_int r)) ` set rs"
  then obtain r where r: "r \<in> set rs" and y: "y = fl (of_int r)" by blast
  from r have "Min (set rs) \<le> r" by simp
  from fl_int_ge [OF assms(2) this] y show "of_int (Min (set rs)) \<le> y" by simp
next
  from assms(1) have "Min (set rs) \<in> set rs" by (intro Min_in) simp_all
  then have "fl (of_int (Min (set rs))) \<in> (\<lambda>r. fl (of_int r)) ` set rs" by (rule imageI)
  with fl_int [OF assms(2)]
  show "real_of_int (Min (set rs)) \<in> (\<lambda>r. fl (of_int r)) ` set rs" by simp
qed

lemma fl_Max:
  assumes "rs \<noteq> []" and "\<bar>Max (set rs)\<bar> \<le> 16777216"
  shows "Max ((\<lambda>r. fl (of_int r)) ` set rs) = of_int (Max (set rs))"
proof (rule Max_eqI)
  show "finite ((\<lambda>r. fl (of_int r)) ` set rs)" by simp
  fix y :: real
  assume "y \<in> (\<lambda>r. fl (of_int r)) ` set rs"
  then obtain r where r: "r \<in> set rs" and y: "y = fl (of_int r)" by blast
  from r have "r \<le> Max (set rs)" by simp
  from fl_int_le [OF assms(2) this] y show "y \<le> of_int (Max (set rs))" by simp
next
  from assms(1) have "Max (set rs) \<in> set rs" by (intro Max_in) simp_all
  then have "fl (of_int (Max (set rs))) \<in> (\<lambda>r. fl (of_int r)) ` set rs" by (rule imageI)
  with fl_int [OF assms(2)]
  show "real_of_int (Max (set rs)) \<in> (\<lambda>r. fl (of_int r)) ` set rs" by simp
qed

text \<open>The three job lists of the counterexample are what first come first served returns.\<close>

lemma fcfs_late_emergency:
  "\<exists>m. fcfs_scheduling late_emergency = Inr (m, late_emergency_run) \<and> total_time m = 1000"
proof -
  have "fcfs_loop 0 0 late_emergency [] = (1000, 2, late_emergency_run)"
    by (simp add: late_emergency_def late_emergency_run_def new_process_def fcfs_body_def
        int32_def Let_def)
  from fcfs_scheduling_run [OF _ this] show ?thesis by (auto simp: late_emergency_def)
qed

lemma fcfs_prompt_emergency:
  "\<exists>m. fcfs_scheduling prompt_emergency = Inr (m, prompt_emergency_run) \<and> total_time m = 3"
proof -
  have "fcfs_loop 0 0 prompt_emergency [] = (3, 1, prompt_emergency_run)"
    by (simp add: prompt_emergency_def prompt_emergency_run_def new_process_def fcfs_body_def
        int32_def Let_def)
  from fcfs_scheduling_run [OF _ this] show ?thesis by (auto simp: prompt_emergency_def)
qed

lemma fcfs_slow_emergency:
  "\<exists>m. fcfs_scheduling slow_emergency = Inr (m, slow_emergency_run) \<and>
       total_time m = 16777218"
proof -
  have "fcfs_loop 0 0 slow_emergency [] = (16777218, 2, slow_emergency_run)"
    by (simp add: slow_emergency_def slow_emergency_run_def new_process_def fcfs_body_def
        int32_def Let_def)
  from fcfs_scheduling_run [OF _ this] show ?thesis by (auto simp: slow_emergency_def)
qed

lemma slow_emergency_valid: "valid_registry slow_emergency"
  by (simp add: valid_registry_def slow_emergency_def initialised_def valid_job_def
      new_process_def)

text \<open>
  Claim C4 (fails on the code). In \<open>late_emergency_run\<close>, which first come first served
  leaves of two valid jobs, the one completed job of the emergency class has a response time
  of 999, and the minimum is reported as 0. In \<open>prompt_emergency_run\<close> there is a completed
  job of the emergency class, with response time 0, and both extrema are reported as 0. In
  \<open>slow_emergency_run\<close> the one completed job of the emergency class has a response time of
  16777217, which is not a \<^verbatim>\<open>float\<close>, and the maximum is reported as 16777216.
\<close>

theorem emergency_extrema_counterexample:
  "emergency_responses late_emergency_run = [999] \<and>
   emergency_response_min (calculate_metrics late_emergency_run 1000) = 0 \<and>
   emergency_responses prompt_emergency_run = [0] \<and>
   emergency_response_min (calculate_metrics prompt_emergency_run 3) = 0 \<and>
   emergency_response_max (calculate_metrics prompt_emergency_run 3) = 0 \<and>
   emergency_responses slow_emergency_run = [16777217] \<and>
   emergency_response_max (calculate_metrics slow_emergency_run 16777218) = 16777216"
proof -
  have e: "emergency_responses late_emergency_run = [999]"
    "emergency_responses prompt_emergency_run = [0]"
    "emergency_responses slow_emergency_run = [16777217]"
    by (simp_all add: late_emergency_run_def prompt_emergency_run_def slow_emergency_run_def
        emergency_responses_def is_complete_def)
  have f: "fl 999 = 999" by (simp add: fl_numeral)
  from e f fl_zero fl_odd show ?thesis
    by (simp add: calculate_metrics_def Let_def em_min_loop em_max_loop)
qed

text \<open>
  Claim C4, amended. Over the completed jobs with priority 1 of any job list: when there is
  none, both extrema are reported as 0; when there are some, the reported minimum is the
  minimum of their response times provided that it is below 999 and not below \<open>-2 ^ 24\<close>,
  and the reported maximum is the maximum of their response times provided that it is not
  negative and not above \<open>2 ^ 24\<close>.
\<close>

theorem emergency_extrema:
  "(emergency_responses proc = [] \<longrightarrow>
      emergency_response_min (calculate_metrics proc tt) = 0 \<and>
      emergency_response_max (calculate_metrics proc tt) = 0) \<and>
   (emergency_responses proc \<noteq> [] \<and> - 16777216 \<le> Min (set (emergency_responses proc)) \<and>
    Min (set (emergency_responses proc)) < 999 \<longrightarrow>
      emergency_response_min (calculate_metrics proc tt) =
        of_int (Min (set (emergency_responses proc)))) \<and>
   (emergency_responses proc \<noteq> [] \<and> 0 \<le> Max (set (emergency_responses proc)) \<and>
    Max (set (emergency_responses proc)) \<le> 16777216 \<longrightarrow>
      emergency_response_max (calculate_metrics proc tt) =
        of_int (Max (set (emergency_responses proc))))"
proof -
  let ?rs = "emergency_responses proc"
  have 1: "emergency_response_min (calculate_metrics proc tt) = 0 \<and>
      emergency_response_max (calculate_metrics proc tt) = 0" if "?rs = []"
    using that by (simp add: calculate_metrics_def Let_def em_min_loop em_max_loop)
  have 2: "emergency_response_min (calculate_metrics proc tt) = of_int (Min (set ?rs))"
    if "?rs \<noteq> []" and "- 16777216 \<le> Min (set ?rs)" and "Min (set ?rs) < 999"
  proof -
    from that(2,3) have "\<bar>Min (set ?rs)\<bar> \<le> 16777216" by simp
    from fl_Min [OF that(1) this] that(1,3) show ?thesis
      by (simp add: calculate_metrics_def Let_def em_min_loop)
  qed
  have 3: "emergency_response_max (calculate_metrics proc tt) = of_int (Max (set ?rs))"
    if "?rs \<noteq> []" and "0 \<le> Max (set ?rs)" and "Max (set ?rs) \<le> 16777216"
  proof -
    from that(2,3) have "\<bar>Max (set ?rs)\<bar> \<le> 16777216" by simp
    from fl_Max [OF that(1) this] that(1,2) show ?thesis
      by (simp add: calculate_metrics_def Let_def em_max_loop)
  qed
  from 1 2 3 show ?thesis by blast
qed

theorem emergency_extrema_witness:
  "emergency_responses three_jobs = [] \<and>
   emergency_response_min (calculate_metrics three_jobs 0) = 0 \<and>
   emergency_response_max (calculate_metrics three_jobs 0) = 0 \<and>
   emergency_responses late_emergency_run \<noteq> [] \<and>
   (0::int) \<le> Max (set (emergency_responses late_emergency_run)) \<and>
   Max (set (emergency_responses late_emergency_run)) \<le> 16777216 \<and>
   emergency_response_max (calculate_metrics late_emergency_run 1000) = 999 \<and>
   emergency_responses prompt_emergency_run \<noteq> [] \<and>
   - 16777216 \<le> Min (set (emergency_responses prompt_emergency_run)) \<and>
   Min (set (emergency_responses prompt_emergency_run)) < 999 \<and>
   emergency_response_min (calculate_metrics prompt_emergency_run 3) = 0"
proof -
  have a: "emergency_responses three_jobs = []"
    by (simp add: three_jobs_def new_process_def emergency_responses_def is_complete_def)
  have b: "emergency_responses late_emergency_run = [999]"
    by (simp add: late_emergency_run_def emergency_responses_def is_complete_def)
  have c: "emergency_responses prompt_emergency_run = [0]"
    by (simp add: prompt_emergency_run_def emergency_responses_def is_complete_def)
  from emergency_extrema [of three_jobs 0] emergency_extrema [of late_emergency_run 1000]
    emergency_extrema [of prompt_emergency_run 3] a b c
  show ?thesis by simp
qed

subsection \<open>When the loops exit\<close>

text \<open>
  On a valid registry that fits the clock and whose burst times are all below the initial
  value of \<^verbatim>\<open>shortest\<close>, the loop of \<^verbatim>\<open>sjf_scheduling\<close> exits from every state that it
  can reach: a dispatch completes one more job, and an idle tick brings the clock closer
  to the latest arrival.
\<close>

lemma sjf_loop_exits:
  assumes v: "\<forall>p \<in> set reg. valid_job p"
    and small: "\<forall>p \<in> set reg. burst_time p < 999999"
  shows "sjf_struct reg s \<Longrightarrow> sched_inv reg s \<Longrightarrow> clock_inv reg s \<Longrightarrow>
         \<exists>s'. sjf_loop s = Some s'"
proof (induction s rule: wf_induct_rule
    [OF wf_inv_image [OF wf_lex_prod [OF wf_less_than wf_less_than]],
      of "\<lambda>s. (nat (int (length (temp s)) - completed s),
               nat (last_arrival reg - current_time s))"])
  case (1 s)
  note st = \<open>sjf_struct reg s\<close> and inv = \<open>sched_inv reg s\<close> and clock = \<open>clock_inv reg s\<close>
  show ?case
  proof (cases "completed s < int (length (temp s))")
    case False
    then show ?thesis by (subst sjf_loop.simps) simp
  next
    case True
    let ?t = "current_time s"
    obtain nx sh
      where scan: "sjf_scan ?t (is_completed s) (temp s) 0 (-1, 999999) = (nx, sh)"
      by (cases "sjf_scan ?t (is_completed s) (temp s) 0 (-1, 999999)")
    from st have d: "map descriptor (temp s) = map descriptor reg"
      by (simp add: sjf_struct_def)
    have none: "\<not> sjf_skipped s"
    proof
      assume "sjf_skipped s"
      then obtain j where j: "j < length (temp s)" "999999 \<le> burst_time (temp s ! j)"
        by (auto simp: sjf_skipped_def)
      from descriptor_nth [OF d j(1)] small j(1) d
      have "burst_time (temp s ! j) < 999999"
        by (metis length_map nth_mem)
      with j(2) show False by simp
    qed
    have "(sjf_body s, s) \<in> inv_image (less_than <*lex*> less_than)
        (\<lambda>s. (nat (int (length (temp s)) - completed s),
              nat (last_arrival reg - current_time s)))"
    proof (cases "nx = -1")
      case False
      from sjf_body_dispatch [OF scan False] True show ?thesis by simp
    next
      case idle: True
      from sjf_body_idle_exact [OF scan idle True st clock none] show ?thesis by simp
    qed
    from "1.IH" [OF this sjf_body_struct [OF v st]] sjf_body_inv [OF st inv clock none True]
    obtain s' where "sjf_loop (sjf_body s) = Some s'" by blast
    with True show ?thesis by (subst sjf_loop.simps) simp
  qed
qed

lemma sjf_scheduling_returns:
  assumes "valid_registry reg" and "clock_fits reg"
    and "\<forall>p \<in> set reg. burst_time p < 999999"
  shows "\<exists>m out. sjf_scheduling reg = Some (Inr (m, out))"
proof -
  let ?s0 = "\<lparr>temp = reg, current_time = 0, completed = 0, switches = 0,
              is_completed = replicate MAX_PROCESSES 0\<rparr>"
  from assms(1) have v: "\<forall>p \<in> set reg. valid_job p" and c: "copy_in reg = Inr reg"
    by (simp_all add: copy_in_def valid_registry_def)
  have i: "sched_inv reg ?s0" using assms(1) by (intro sched_inv_init) simp_all
  have k: "clock_inv reg ?s0" using assms(1,2) by (intro clock_inv_init) simp_all
  from sjf_loop_exits [OF v assms(3) sjf_struct_init [OF assms(1)] i k]
  obtain s' where "sjf_loop ?s0 = Some s'" by blast
  with c show ?thesis by (simp add: sjf_scheduling_def)
qed

text \<open>
  An iteration that runs a job, when three more event rows fit: it does not overrun, and
  these are its effects on \<^verbatim>\<open>is_running\<close>, \<^verbatim>\<open>context_switches\<close> and \<^verbatim>\<open>event_count\<close>.
\<close>

lemma priority_body_run:
  assumes scan: "priority_scan (current_time s) (temp s) 0 (-1, 999) = (nx, hp)"
    and nx: "nx \<noteq> -1" and room: "length (events s) + 3 \<le> MAX_EVENTS"
  shows "\<exists>s1. priority_body s = Inr s1 \<and>
     is_running s1 = (if remaining_time (temp s ! nat nx) = 1 then -1 else nx) \<and>
     switches s1 = switches s + (if is_running s \<noteq> nx then 1 else 0) \<and>
     length (events s1) = length (events s) +
       (if is_running s \<noteq> nx \<and> is_running s \<noteq> -1 \<and>
           0 < remaining_time (temp s ! nat (is_running s)) then 1 else 0) +
       (if is_running s \<noteq> nx then 1 else 0) +
       (if remaining_time (temp s ! nat nx) = 1 then 1 else 0)"
proof -
  from priority_scan_result [OF scan] nx have rng: "nat nx < length (temp s)" by auto
  show ?thesis
  proof (cases "is_running s \<noteq> nx")
    case False
    with scan nx rng room show ?thesis
      by (simp add: priority_body_def finish_def record_event_def Let_def)
  next
    case True
    show ?thesis
    proof (cases "is_running s \<noteq> -1 \<and> 0 < remaining_time (temp s ! nat (is_running s))")
      case pe: True
      with True scan nx rng room show ?thesis
        by (simp add: priority_body_def dispatch_def finish_def record_event_def Let_def)
    next
      case False
      then have "(is_running s \<noteq> -1 \<and> 0 < remaining_time (temp s ! nat (is_running s))) = False"
        by simp
      with True scan nx rng room show ?thesis
        by (simp add: priority_body_def dispatch_def finish_def record_event_def Let_def)
    qed
  qed
qed

text \<open>The arrival times counted by \<open>arrived_before\<close>.\<close>

lemma arrived_before_mono: "t \<le> t' \<Longrightarrow> arrived_before reg t \<le> arrived_before reg t'"
  unfolding arrived_before_def by (intro card_mono) auto

lemma arrived_before_arrival:
  assumes "p \<in> set reg" and "arrival_time p = t"
  shows "arrived_before reg t + 1 \<le> arrived_before reg (t + 1)"
proof -
  let ?A = "set (map arrival_time reg)"
  from assms have "t \<in> ?A" by auto
  then have "insert t {a \<in> ?A. a < t} \<subseteq> {a \<in> ?A. a < t + 1}" by auto
  then have "card (insert t {a \<in> ?A. a < t}) \<le> card {a \<in> ?A. a < t + 1}"
    by (intro card_mono) auto
  then show ?thesis by (simp add: arrived_before_def)
qed

lemma arrived_before_le: "arrived_before reg t \<le> length reg"
proof -
  have "card {a \<in> set (map arrival_time reg). a < t} \<le> card (set (map arrival_time reg))"
    by (intro card_mono) auto
  also have "\<dots> \<le> length (map arrival_time reg)" by (rule card_length)
  finally show ?thesis by (simp add: arrived_before_def)
qed

text \<open>With the invariant, fewer than 200 event rows have been written.\<close>

lemma priority_inv_room:
  assumes "priority_inv reg s"
  shows "length (events s) + 3 \<le> MAX_EVENTS"
proof -
  from assms have si: "sched_inv reg s" and len: "length reg \<le> MAX_PROCESSES"
    and sw: "switches s \<le> completed s + int (arrived_before reg (current_time s)) +
                   (if is_running s = -1 then 0 else 1)"
    and ev: "int (length (events s)) \<le>
       switches s + int (arrived_before reg (current_time s)) + completed s"
    by (simp_all add: priority_inv_def)
  from si have "map descriptor (temp s) = map descriptor reg"
    and c: "completed s = int (done_count (temp s))"
    by (simp_all add: sched_inv_def)
  then have "length (temp s) = length reg" by (metis length_map)
  with c done_count_le [of "temp s"] have "completed s \<le> int (length reg)" by simp
  moreover have "int (arrived_before reg (current_time s)) \<le> int (length reg)"
    using arrived_before_le [of reg "current_time s"] by simp
  ultimately have "int (length (events s)) \<le> 4 * int (length reg) + 1"
    using sw ev by (auto split: if_splits)
  with len show ?thesis by simp
qed

text \<open>
  An iteration that does not overrun keeps the invariant. The step that matters: the loop
  switches away from a job that still needs service only at a tick at which the selected
  job arrives, because until then the running job is the one that the selection loop finds.
\<close>

lemma low_not_passed_over:
  assumes "\<forall>p \<in> set reg. priority p < 999"
    and "map descriptor (temp s) = map descriptor reg"
  shows "\<not> passed_over s"
proof
  assume "passed_over s"
  then obtain j where j: "j < length (temp s)" "999 \<le> priority (temp s ! j)"
    by (auto simp: passed_over_def)
  from descriptor_nth [OF assms(2) j(1)] assms(1)
  have "priority (temp s ! j) < 999" by auto
  with j(2) show False by simp
qed

lemma priority_body_pinv:
  assumes inv: "priority_inv reg s" and clock: "clock_inv reg s"
    and low: "\<forall>p \<in> set reg. priority p < 999"
    and more: "completed s < int (length (temp s))"
    and body: "priority_body s = Inr s1"
  shows "priority_inv reg s1 \<and> clock_inv reg s1"
proof -
  let ?t = "current_time s"
  let ?n = "length (temp s)"
  let ?r = "is_running s"
  obtain nx hp where scan: "priority_scan ?t (temp s) 0 (-1, 999) = (nx, hp)"
    by (cases "priority_scan ?t (temp s) 0 (-1, 999)")
  note least = priority_scan_least [OF scan, simplified]
  from inv have si: "sched_inv reg s" and len: "length reg \<le> MAX_PROCESSES"
    and rb: "running_best s"
    and sw: "switches s \<le> completed s + int (arrived_before reg ?t) +
                   (if ?r = -1 then 0 else 1)"
    and ev: "int (length (events s)) \<le> switches s + int (arrived_before reg ?t) + completed s"
    by (simp_all add: priority_inv_def)
  from si have d: "map descriptor (temp s) = map descriptor reg" by (simp add: sched_inv_def)
  from low d have none: "\<not> passed_over s" by (rule low_not_passed_over)
  from priority_body_inv [OF si clock none more body]
  have si1: "sched_inv reg s1" and clock1: "clock_inv reg s1" by simp_all
  have running: "nx \<noteq> -1" if "?r \<noteq> -1"
  proof
    assume "nx = -1"
    with least have "hp = 999"
      and "\<forall>k < ?n. arrival_time (temp s ! k) \<le> ?t \<and> 0 < remaining_time (temp s ! k) \<longrightarrow>
             hp \<le> priority (temp s ! k)"
      by auto
    with rb that show False unfolding running_best_def by force
  qed
  show ?thesis
  proof (cases "nx = -1")
    case True
    with running have r: "?r = -1" by blast
    from priority_body_idle_exact(1) [OF scan True more si clock none] body
    have s1: "s1 = s\<lparr>current_time := ?t + 1\<rparr>" by simp
    from arrived_before_mono [of ?t "?t + 1" reg]
    have "int (arrived_before reg ?t) \<le> int (arrived_before reg (?t + 1))" by simp
    with si1 clock1 len sw ev r s1 show ?thesis
      by (simp add: priority_inv_def running_best_def)
  next
    case False
    note nxne = False
    let ?p = "temp s ! nat nx"
    from least False have rng: "0 \<le> nx" "nat nx < ?n" and arr: "arrival_time ?p \<le> ?t"
      and rem: "0 < remaining_time ?p" and hp: "hp = priority ?p" "hp < 999"
      and best: "\<And>k. k < ?n \<Longrightarrow> arrival_time (temp s ! k) \<le> ?t \<Longrightarrow>
                  0 < remaining_time (temp s ! k) \<Longrightarrow>
                  hp \<le> priority (temp s ! k) \<and> (priority (temp s ! k) = hp \<longrightarrow> nx \<le> int k)"
      by auto
    from priority_body_exact(1) [OF body scan False si clock]
    obtain a b where t1: "current_time s1 = ?t + 1"
      and c1: "completed s1 = completed s + (if remaining_time ?p = 1 then 1 else 0)"
      and tmp1: "temp s1 = (temp s)[nat nx :=
          (if remaining_time ?p = 1
           then ?p\<lparr>start_time := a, response_time := b, remaining_time := 0,
                completion_time := ?t + 1,
                turnaround_time := ?t + 1 - arrival_time ?p,
                waiting_time := (?t + 1 - arrival_time ?p) - burst_time ?p\<rparr>
           else ?p\<lparr>start_time := a, response_time := b,
                remaining_time := remaining_time ?p - 1\<rparr>)]"
      by (auto split: if_splits)
    have other: "temp s1 ! j = temp s ! j" if "j \<noteq> nat nx" for j
      using that tmp1 by simp
    have own: "arrival_time (temp s1 ! nat nx) = arrival_time ?p"
      "priority (temp s1 ! nat nx) = priority ?p"
      "remaining_time (temp s1 ! nat nx) = remaining_time ?p - 1"
      using tmp1 rng by (auto split: if_splits)
    have n1: "length (temp s1) = ?n" using tmp1 by simp
    from inv have room: "length (events s) + 3 \<le> MAX_EVENTS" by (rule priority_inv_room)
    have fresh: "arrival_time ?p = ?t" if r: "?r \<noteq> -1" "?r \<noteq> nx"
    proof (rule ccontr)
      assume "arrival_time ?p \<noteq> ?t"
      with arr have before: "arrival_time ?p < ?t" by simp
      let ?q = "temp s ! nat ?r"
      from rb r(1) have q: "0 \<le> ?r" "nat ?r < ?n" "0 < remaining_time ?q"
        "arrival_time ?q < ?t"
        and qbest: "\<And>j. j < ?n \<Longrightarrow> arrival_time (temp s ! j) < ?t \<Longrightarrow>
            0 < remaining_time (temp s ! j) \<Longrightarrow>
            priority ?q \<le> priority (temp s ! j) \<and>
            (priority (temp s ! j) = priority ?q \<longrightarrow> nat ?r \<le> j)"
        unfolding running_best_def by auto
      from best [of "nat ?r"] q hp
      have 1: "priority ?p \<le> priority ?q" "priority ?q = priority ?p \<longrightarrow> nx \<le> ?r"
        by auto
      from qbest [OF rng(2) before rem]
      have 2: "priority ?q \<le> priority ?p" "priority ?p = priority ?q \<longrightarrow> nat ?r \<le> nat nx"
        by auto
      from 1 2 q(1) rng(1) have "?r = nx" by auto
      with r(2) show False by simp
    qed
    show ?thesis
    proof -
      from priority_body_run [OF scan nxne room] body
      have r1: "is_running s1 = (if remaining_time ?p = 1 then -1 else nx)"
        and s1: "switches s1 = switches s + (if ?r \<noteq> nx then 1 else 0)"
        and e1: "length (events s1) = length (events s) +
            (if ?r \<noteq> nx \<and> ?r \<noteq> -1 \<and> 0 < remaining_time (temp s ! nat ?r) then 1 else 0) +
            (if ?r \<noteq> nx then 1 else 0) + (if remaining_time ?p = 1 then 1 else 0)"
        by auto
      have up: "int (arrived_before reg ?t) +
          (if ?r \<noteq> nx \<and> ?r \<noteq> -1 then 1 else 0) \<le> int (arrived_before reg (?t + 1))"
      proof (cases "?r \<noteq> nx \<and> ?r \<noteq> -1")
        case True
        with fresh have "arrival_time ?p = ?t" by simp
        moreover from descriptor_nth [OF d rng(2)]
        have "arrival_time ?p = arrival_time (reg ! nat nx)" "reg ! nat nx \<in> set reg"
          by simp_all
        ultimately have "arrived_before reg ?t + 1 \<le> arrived_before reg (?t + 1)"
          by (intro arrived_before_arrival [of "reg ! nat nx"]) simp_all
        with True show ?thesis by simp
      next
        case False
        with arrived_before_mono [of ?t "?t + 1" reg] show ?thesis by auto
      qed
      have rb1: "running_best s1"
      proof (cases "remaining_time ?p = 1")
        case True
        with r1 show ?thesis by (simp add: running_best_def)
      next
        case False
        with r1 have run: "is_running s1 = nx" by simp
        have "priority (temp s1 ! nat nx) \<le> priority (temp s1 ! j) \<and>
            (priority (temp s1 ! j) = priority (temp s1 ! nat nx) \<longrightarrow> nat nx \<le> j)"
          if j: "j < ?n" "arrival_time (temp s1 ! j) < ?t + 1" "0 < remaining_time (temp s1 ! j)"
          for j
        proof (cases "j = nat nx")
          case True
          then show ?thesis by simp
        next
          case False
          with j other [OF False] best [of j] hp own rng show ?thesis
            by (auto simp: nat_le_iff)
        qed
        with run rng rem False arr hp own n1 t1 show ?thesis
          unfolding running_best_def by auto
      qed
      have sw1: "switches s1 \<le> completed s1 + int (arrived_before reg (current_time s1)) +
                   (if is_running s1 = -1 then 0 else 1)"
        using sw up s1 c1 r1 t1 nxne by (auto split: if_splits)
      have ev1: "int (length (events s1)) \<le>
          switches s1 + int (arrived_before reg (current_time s1)) + completed s1"
        using ev up s1 c1 e1 t1 nxne by (auto split: if_splits)
      from si1 clock1 len rb1 sw1 ev1 show ?thesis by (simp add: priority_inv_def)
    qed
  qed
qed

text \<open>
  On a registry of at most 20 jobs that fits the clock and whose priority numbers are all
  below the initial value of \<^verbatim>\<open>highest_priority\<close>, the loop of \<^verbatim>\<open>priority_scheduling\<close> exits from every state that
  it can reach, without overrunning \<^verbatim>\<open>events\<close>: a tick that runs a job leaves less work,
  and an idle tick brings the clock closer to the latest arrival.
\<close>

lemma priority_loop_exits:
  assumes low: "\<forall>p \<in> set reg. priority p < 999"
  shows "priority_inv reg s \<Longrightarrow> clock_inv reg s \<Longrightarrow>
         \<exists>s'. priority_loop s = Some (Inr s')"
proof (induction s rule: wf_induct_rule
    [OF wf_inv_image [OF wf_lex_prod [OF wf_less_than wf_less_than]],
      of "\<lambda>s. (work_left (temp s), nat (last_arrival reg - current_time s))"])
  case (1 s)
  note inv = \<open>priority_inv reg s\<close> and clock = \<open>clock_inv reg s\<close>
  show ?case
  proof (cases "completed s < int (length (temp s))")
    case False
    then show ?thesis by (subst priority_loop.simps) simp
  next
    case True
    let ?t = "current_time s"
    obtain nx hp where scan: "priority_scan ?t (temp s) 0 (-1, 999) = (nx, hp)"
      by (cases "priority_scan ?t (temp s) 0 (-1, 999)")
    note least = priority_scan_least [OF scan, simplified]
    from inv have si: "sched_inv reg s" by (simp add: priority_inv_def)
    then have d: "map descriptor (temp s) = map descriptor reg"
      and k: "completed s = int (done_count (temp s))"
      and ji: "jobs_inv ?t (temp s)"
      by (simp_all add: sched_inv_def)
    have "\<exists>s1. priority_body s = Inr s1 \<and>
        (s1, s) \<in> inv_image (less_than <*lex*> less_than)
          (\<lambda>s. (work_left (temp s), nat (last_arrival reg - current_time s)))"
    proof (cases "nx = -1")
      case False
      from least False have rng: "nat nx < length (temp s)"
        and rem: "0 < remaining_time (temp s ! nat nx)"
        by auto
      from priority_body_run [OF scan False priority_inv_room [OF inv]]
      obtain s1 where body: "priority_body s = Inr s1" by blast
      from priority_body_at [OF body scan False]
      obtain q where tmp: "temp s1 = (temp s)[nat nx := q]"
        and q: "remaining_time q = remaining_time (temp s ! nat nx) - 1"
        by (auto split: if_splits)
      from q have "remaining_time q < remaining_time (temp s ! nat nx)" by simp
      from work_left_update [OF rng rem this] tmp
      have "work_left (temp s1) < work_left (temp s)" by simp
      with body show ?thesis by simp
    next
      case idle: True
      from low d have none: "\<not> passed_over s" by (rule low_not_passed_over)
      from priority_body_idle_exact [OF scan idle True si clock none] show ?thesis by simp
    qed
    then obtain s1 where body: "priority_body s = Inr s1"
      and less: "(s1, s) \<in> inv_image (less_than <*lex*> less_than)
          (\<lambda>s. (work_left (temp s), nat (last_arrival reg - current_time s)))"
      by blast
    from priority_body_pinv [OF inv clock low True body]
    have "priority_inv reg s1" "clock_inv reg s1" by simp_all
    from "1.IH" [OF less this]
    obtain s' where "priority_loop s1 = Some (Inr s')" by blast
    with True body show ?thesis by (subst priority_loop.simps) simp
  qed
qed

text \<open>
  So \<^verbatim>\<open>priority_scheduling\<close> returns on every valid registry that fits the clock and has
  such priority numbers.
\<close>

lemma priority_scheduling_returns:
  assumes "valid_registry reg" and "clock_fits reg"
    and "\<forall>p \<in> set reg. priority p < 999"
  shows "\<exists>m out ev. priority_scheduling reg = Some (Inr (m, out, ev))"
proof -
  let ?s0 = "\<lparr>temp = reg, current_time = 0, completed = 0, switches = 0,
              is_running = -1, events = []\<rparr>"
  from assms(1) have len: "length reg \<le> MAX_PROCESSES" and c: "copy_in reg = Inr reg"
    by (simp_all add: copy_in_def valid_registry_def)
  have "sched_inv reg ?s0" using assms(1) by (intro sched_inv_init) simp_all
  with len have "priority_inv reg ?s0" by (simp add: priority_inv_def running_best_def)
  moreover have "clock_inv reg ?s0" using assms(1,2) by (intro clock_inv_init) simp_all
  ultimately have "\<exists>s'. priority_loop ?s0 = Some (Inr s')"
    by (rule priority_loop_exits [OF assms(3)])
  then
  obtain s' where "priority_loop ?s0 = Some (Inr s')" by blast
  with c show ?thesis by (simp add: priority_scheduling_def)
qed

subsection \<open>Round robin: the cells of the queue\<close>

lemma length_filter_sum:
  "length (filter P xs) = sum_list (map (\<lambda>x. if P x then 1 else 0) xs)"
  by (induction xs) simp_all

lemma sum_list_single:
  "sum_list (map (\<lambda>i. if i = k then d else (0::nat)) [0..<n]) = (if k < n then d else 0)"
  by (induction n) simp_all

lemma sum_list_pointwise:
  fixes f g :: "'a \<Rightarrow> nat"
  assumes "length ps = length qs"
    and "\<And>i. i < length ps \<Longrightarrow> f (ps ! i) = g (qs ! i) + h i"
  shows "sum_list (map f ps) = sum_list (map g qs) + sum_list (map h [0..<length ps])"
proof -
  have "map f ps = map (\<lambda>i. f (ps ! i)) [0..<length ps]"
    by (intro nth_equalityI) simp_all
  also have "\<dots> = map (\<lambda>i. g (qs ! i) + h i) [0..<length ps]"
    using assms(2) by simp
  finally have "sum_list (map f ps) =
      sum_list (map (\<lambda>i. g (qs ! i)) [0..<length ps]) + sum_list (map h [0..<length ps])"
    by (simp add: sum_list_addf)
  moreover have "map (\<lambda>i. g (qs ! i)) [0..<length ps] = map g qs"
    using assms(1) by (intro nth_equalityI) simp_all
  ultimately show ?thesis by simp
qed

lemma selected_length:
  "length (selected c ps 0 inq) = length (filter (\<lambda>k. c (int k) (ps ! k) inq) [0..<length ps])"
  by (simp add: selected_filter)

text \<open>An enqueueing loop stays within \<^verbatim>\<open>queue\<close> when its writes fit.\<close>

lemma enqueue_where_returns:
  assumes "reads_own_flag c" and "0 \<le> i"
    and "length q + length (selected c ps i inq) \<le> MAX_PROCESSES"
  shows "\<exists>q' inq'. enqueue_where c ps i (q, inq) = Inr (q', inq')"
  using assms(2,3)
proof (induction ps arbitrary: i q inq)
  case Nil
  then show ?case by simp
next
  case (Cons p ps)
  show ?case
  proof (cases "c i p inq")
    case False
    with Cons.prems Cons.IH [of "i + 1" q inq] show ?thesis by simp
  next
    case True
    let ?inq1 = "inq[nat i := 1]"
    have "selected c ps (i + 1) ?inq1 = selected c ps (i + 1) inq"
      using Cons.prems(1) by (intro selected_cong [OF assms(1)]) auto
    with True Cons.prems Cons.IH [of "i + 1" "q @ [i]" ?inq1] show ?thesis
      by (simp add: enqueue_def)
  qed
qed

lemma quanta_simps:
  "quanta 0 = 0" "0 < r \<Longrightarrow> r \<le> TIME_QUANTUM \<Longrightarrow> quanta r = 1"
  "TIME_QUANTUM < r \<Longrightarrow> quanta r = quanta (r - TIME_QUANTUM) + 1"
  "0 < r \<Longrightarrow> 0 < quanta r"
  by (simp_all add: quanta_def)


text \<open>
  The account of an idle tick: the jobs that the loop enqueues are those that arrive at
  the new clock, and each of them has one write fewer to come.
\<close>

lemma rr_idle_account:
  assumes inv: "rr_inv reg s" and idle: "front s = length (queue s)"
  shows "sum_list (map (writes_left (current_time s)) (temp s)) =
         sum_list (map (writes_left (current_time s + 1)) (temp s)) +
         length (selected (ready_idle (current_time s + 1)) (temp s) 0 (in_queue s))"
proof -
  let ?t = "current_time s"
  let ?C = "\<lambda>k. ready_idle (?t + 1) (int k) (temp s ! k) (in_queue s)"
  from inv have si: "sched_inv reg s"
    and all: "\<And>i. i < length (temp s) \<Longrightarrow>
        (in_queue s ! i \<noteq> 0 \<longleftrightarrow> int i \<in> set (ready_queue s)) \<and>
        (int i \<in> set (ready_queue s) \<longleftrightarrow>
           arrival_time (temp s ! i) \<le> ?t \<and> remaining_time (temp s ! i) > 0)"
    by (simp_all add: rr_inv_def)
  from si have ji: "\<And>i. i < length (temp s) \<Longrightarrow> job_inv ?t (temp s ! i)"
    by (simp add: sched_inv_def jobs_inv_def)
  from idle have empty: "ready_queue s = []" by (simp add: ready_queue_def)
  have pt: "writes_left ?t (temp s ! i) =
      writes_left (?t + 1) (temp s ! i) + (if ?C i then 1 else 0)"
    if i: "i < length (temp s)" for i
  proof -
    from all [OF i] empty have flag0: "in_queue s ! i = 0"
      and nr: "\<not> (arrival_time (temp s ! i) \<le> ?t \<and> remaining_time (temp s ! i) > 0)"
      by simp_all
    note j = ji [OF i]
    show ?thesis
    proof (cases "arrival_time (temp s ! i) \<le> ?t")
      case True
      with nr j have "remaining_time (temp s ! i) = 0" by (auto simp: job_inv_def)
      with True show ?thesis by (simp add: writes_left_def ready_idle_def quanta_simps(1))
    next
      case False
      then have "?t < arrival_time (temp s ! i)" by simp
      from job_inv_unserved [OF j this] have rem: "0 < remaining_time (temp s ! i)" by simp
      from quanta_simps(4) [OF rem] False flag0 rem show ?thesis
        by (auto simp: writes_left_def ready_idle_def)
    qed
  qed
  from sum_list_pointwise [where ps = "temp s" and qs = "temp s" and f = "writes_left ?t"
      and g = "writes_left (?t + 1)" and h = "\<lambda>i. if ?C i then 1 else 0", OF refl pt]
  show ?thesis by (simp add: selected_length length_filter_sum)
qed

text \<open>
  The account of a dispatch: the job that runs has one write fewer to come if it is
  appended again, and so has each job that arrives in the window.
\<close>

lemma rr_run_account:
  assumes inv: "rr_inv reg s" and ne: "front s \<noteq> length (queue s)"
  defines "idx \<equiv> queue s ! front s"
  defines "p \<equiv> temp s ! nat idx"
  defines "e \<equiv> (if remaining_time p > TIME_QUANTUM then TIME_QUANTUM else remaining_time p)"
  assumes q: "arrival_time q = arrival_time p" "remaining_time q = remaining_time p - e"
  shows "sum_list (map (writes_left (current_time s)) (temp s)) =
         sum_list (map (writes_left (current_time s + e)) ((temp s)[nat idx := q])) +
         length (selected (ready_after (current_time s + e) idx) ((temp s)[nat idx := q']) 0
                   ((in_queue s)[nat idx := 0])) +
         (if remaining_time p = e then 0 else 1)"
proof -
  let ?t = "current_time s"
  let ?n = "length (temp s)"
  let ?i0 = "nat idx"
  let ?inq0 = "(in_queue s)[?i0 := 0]"
  let ?C = "\<lambda>k. ready_after (?t + e) idx (int k) ((temp s)[?i0 := q'] ! k) ?inq0"
  let ?d = "if remaining_time p = e then 0 else (1::nat)"
  from inv have si: "sched_inv reg s" and len: "?n \<le> length (in_queue s)"
    and fr: "front s \<le> length (queue s)"
    and rng: "\<And>x. x \<in> set (ready_queue s) \<Longrightarrow> 0 \<le> x \<and> nat x < ?n"
    and flag: "\<And>i. i < ?n \<Longrightarrow> in_queue s ! i \<noteq> 0 \<longleftrightarrow> int i \<in> set (ready_queue s)"
    and ready: "\<And>i. i < ?n \<Longrightarrow> int i \<in> set (ready_queue s) \<longleftrightarrow>
           arrival_time (temp s ! i) \<le> ?t \<and> remaining_time (temp s ! i) > 0"
    by (simp_all add: rr_inv_def)
  from si have ji: "\<And>i. i < ?n \<Longrightarrow> job_inv ?t (temp s ! i)"
    by (simp add: sched_inv_def jobs_inv_def)
  from ne fr have "front s < length (queue s)" by simp
  then have "drop (front s) (queue s) = idx # drop (Suc (front s)) (queue s)"
    by (simp add: idx_def Cons_nth_drop_Suc)
  then have idx_in: "idx \<in> set (ready_queue s)" by (simp add: ready_queue_def)
  from rng [OF idx_in] have i0: "0 \<le> idx" "?i0 < ?n" by simp_all
  then have int_i0: "int ?i0 = idx" by simp
  from ready [of ?i0] i0 idx_in int_i0
  have arr: "arrival_time p \<le> ?t" and rem: "0 < remaining_time p" by (simp_all add: p_def)
  then have e: "0 < e" by (simp add: e_def)
  have pt: "writes_left ?t (temp s ! i) =
      writes_left (?t + e) ((temp s)[?i0 := q] ! i) +
      ((if ?C i then 1 else 0) + (if i = ?i0 then ?d else 0))"
    if i: "i < ?n" for i
  proof (cases "i = ?i0")
    case True
    with int_i0 have nc: "\<not> ?C i" by (simp add: ready_after_def)
    from arr e q(1) have a1: "arrival_time q \<le> ?t + e" by simp
    show ?thesis
    proof (cases "TIME_QUANTUM < remaining_time p")
      case long: True
      then have e4: "e = TIME_QUANTUM" by (simp add: e_def)
      with long q(2) have "0 < remaining_time q" by simp
      from quanta_simps(4) [OF this] quanta_simps(3) [OF long] q(2) e4 long
      have "quanta (remaining_time p) - 1 = quanta (remaining_time q) - 1 + 1"
        and "remaining_time p \<noteq> e"
        by simp_all
      with True nc i0 arr a1 show ?thesis by (simp add: writes_left_def p_def)
    next
      case False
      then have er: "e = remaining_time p" by (simp add: e_def)
      with q(2) have "remaining_time q = 0" by simp
      moreover from quanta_simps(2) [OF rem] False have "quanta (remaining_time p) = 1" by simp
      ultimately show ?thesis
        using True nc i0 arr a1 er by (simp add: writes_left_def p_def quanta_simps(1))
    qed
  next
    case False
    with int_i0 have ni: "int i \<noteq> idx" by auto
    from False i have same: "(temp s)[?i0 := q] ! i = temp s ! i"
      "(temp s)[?i0 := q'] ! i = temp s ! i" "?inq0 ! i = in_queue s ! i"
      by simp_all
    note j = ji [OF i]
    from flag [OF i] ready [OF i]
    have fl: "in_queue s ! i \<noteq> 0 \<longleftrightarrow>
        arrival_time (temp s ! i) \<le> ?t \<and> remaining_time (temp s ! i) > 0"
      by simp
    show ?thesis
    proof (cases "arrival_time (temp s ! i) \<le> ?t")
      case True
      with fl e have "\<not> ?C i" by (auto simp: ready_after_def same)
      with True False e show ?thesis by (simp add: writes_left_def same)
    next
      case late: False
      then have "?t < arrival_time (temp s ! i)" by simp
      from job_inv_unserved [OF j this] have r: "0 < remaining_time (temp s ! i)" by simp
      from late fl have "in_queue s ! i = 0" by auto
      with r ni have "?C i \<longleftrightarrow> arrival_time (temp s ! i) \<le> ?t + e"
        by (simp add: ready_after_def same)
      with quanta_simps(4) [OF r] late False show ?thesis
        by (auto simp: writes_left_def same)
    qed
  qed
  from sum_list_pointwise [where ps = "temp s" and qs = "(temp s)[?i0 := q]"
      and f = "writes_left ?t" and g = "writes_left (?t + e)"
      and h = "\<lambda>i. (if ?C i then 1 else 0) + (if i = ?i0 then ?d else 0)", OF _ pt]
  have "sum_list (map (writes_left ?t) (temp s)) =
      sum_list (map (writes_left (?t + e)) ((temp s)[?i0 := q])) +
      sum_list (map (\<lambda>i. (if ?C i then 1 else 0) + (if i = ?i0 then ?d else 0)) [0..<?n])"
    by simp
  also have "sum_list (map (\<lambda>i. (if ?C i then 1 else 0) + (if i = ?i0 then ?d else 0)) [0..<?n])
      = length (filter ?C [0..<?n]) + ?d"
    using i0(2) by (simp only: sum_list_addf sum_list_single length_filter_sum if_True)
  also have "length (filter ?C [0..<?n]) =
      length (selected (ready_after (?t + e) idx) ((temp s)[?i0 := q']) 0 ?inq0)"
    by (simp add: selected_length)
  finally show ?thesis by simp
qed


text \<open>On a registry that fits the clock, the sums of an iteration are \<^verbatim>\<open>int\<close> values.\<close>

lemma rr_idle_clock:
  assumes inv: "rr_inv reg s" and clock: "clock_inv reg s"
    and more: "completed s < int (length (temp s))" and idle: "front s = length (queue s)"
  shows "int32 (current_time s + 1) = current_time s + 1"
    and "current_time s < last_arrival reg"
proof -
  from inv have si: "sched_inv reg s"
    and all: "\<And>i. i < length (temp s) \<Longrightarrow>
        (int i \<in> set (ready_queue s) \<longleftrightarrow>
           arrival_time (temp s ! i) \<le> current_time s \<and> remaining_time (temp s ! i) > 0)"
    by (simp_all add: rr_inv_def)
  from idle have empty: "ready_queue s = []" by (simp add: ready_queue_def)
  from si have d: "map descriptor (temp s) = map descriptor reg"
    and k: "completed s = int (done_count (temp s))"
    and ji: "jobs_inv (current_time s) (temp s)"
    by (simp_all add: sched_inv_def)
  from more k have "done_count (temp s) < length (temp s)" by simp
  from done_count_less [OF this]
  obtain j where j: "j < length (temp s)" and left: "remaining_time (temp s ! j) \<noteq> 0"
    by blast
  from ji j have "0 \<le> remaining_time (temp s ! j)" by (simp add: jobs_inv_def job_inv_def)
  with left have "0 < remaining_time (temp s ! j)" by simp
  with all [OF j] empty have "current_time s < arrival_time (temp s ! j)" by auto
  moreover from descriptor_nth [OF d j] have "arrival_time (temp s ! j) \<le> last_arrival reg"
    by (auto intro: last_arrival_ge)
  ultimately show lt: "current_time s < last_arrival reg" by simp
  from clock have "0 \<le> current_time s" "last_arrival reg \<le> INT_MAX"
    by (auto simp: clock_inv_def)
  with lt show "int32 (current_time s + 1) = current_time s + 1" by (intro int32_id) simp_all
qed

lemma rr_run_clock:
  assumes inv: "rr_inv reg s" and clock: "clock_inv reg s"
    and ne: "front s \<noteq> length (queue s)"
  defines "idx \<equiv> queue s ! front s"
  defines "p \<equiv> temp s ! nat idx"
  defines "e \<equiv> (if remaining_time p > TIME_QUANTUM then TIME_QUANTUM else remaining_time p)"
  shows "int32 (current_time s + e) = current_time s + e"
proof -
  let ?t = "current_time s"
  let ?n = "length (temp s)"
  from inv have si: "sched_inv reg s" and fr: "front s \<le> length (queue s)"
    and rng: "\<And>x. x \<in> set (ready_queue s) \<Longrightarrow> 0 \<le> x \<and> nat x < ?n"
    and ready: "\<And>i. i < ?n \<Longrightarrow> int i \<in> set (ready_queue s) \<longleftrightarrow>
           arrival_time (temp s ! i) \<le> ?t \<and> remaining_time (temp s ! i) > 0"
    by (simp_all add: rr_inv_def)
  from ne fr have "front s < length (queue s)" by simp
  then have "drop (front s) (queue s) = idx # drop (Suc (front s)) (queue s)"
    by (simp add: idx_def Cons_nth_drop_Suc)
  then have idx_in: "idx \<in> set (ready_queue s)" by (simp add: ready_queue_def)
  from rng [OF idx_in] have i0: "0 \<le> idx" "nat idx < ?n" by simp_all
  then have int_i0: "int (nat idx) = idx" by simp
  from ready [of "nat idx"] i0 idx_in int_i0
  have arr: "arrival_time p \<le> ?t" and rem: "0 < remaining_time p" by (simp_all add: p_def)
  then have e: "0 < e" "e \<le> remaining_time p" by (simp_all add: e_def)
  from si i0 have jp: "job_inv ?t p" by (simp add: sched_inv_def jobs_inv_def p_def)
  from clock_inv_room [OF clock, of "nat idx"] i0 rem
  have fit: "?t + remaining_time p \<le> INT_MAX" by (simp add: p_def)
  from served_in_range(1) [OF jp arr e fit] show ?thesis .
qed

text \<open>
  With the account, an iteration stays within \<^verbatim>\<open>queue\<close> when the quanta of the registry
  fit into it, and the account holds again after an iteration that stays within it.
\<close>

lemma rr_idle_quota:
  assumes inv: "rr_inv reg s" and clock: "clock_inv reg s"
    and more: "completed s < int (length (temp s))" and idle: "front s = length (queue s)"
    and quota: "rr_quota reg s"
  shows "(total_quanta reg \<le> MAX_PROCESSES \<longrightarrow> (\<exists>s1. rr_idle s = Inr s1)) \<and>
         (\<forall>s1. rr_idle s = Inr s1 \<longrightarrow> rr_quota reg s1)"
proof -
  let ?t = "current_time s"
  let ?sel = "selected (ready_idle (?t + 1)) (temp s) 0 (in_queue s)"
  note c = rr_idle_clock(1) [OF inv clock more idle]
  from rr_idle_account [OF inv idle] quota
  have acct: "length (queue s) + length ?sel +
      sum_list (map (writes_left (?t + 1)) (temp s)) = total_quanta reg"
    by (simp add: rr_quota_def)
  have ret: "\<exists>s1. rr_idle s = Inr s1" if "total_quanta reg \<le> MAX_PROCESSES"
  proof -
    from acct that have "length (queue s) + length ?sel \<le> MAX_PROCESSES" by simp
    from enqueue_where_returns [OF reads_own_flag_conds(2) _ this]
    obtain q' inq'
      where "enqueue_where (ready_idle (?t + 1)) (temp s) 0 (queue s, in_queue s) = Inr (q', inq')"
      by auto
    then show ?thesis by (simp add: rr_idle_def Let_def c)
  qed
  have "rr_quota reg s1" if "rr_idle s = Inr s1" for s1
  proof -
    from rr_idle_result [OF that, unfolded c]
    have "current_time s1 = ?t + 1" "temp s1 = temp s" "queue s1 = queue s @ ?sel"
      by auto
    with acct show ?thesis by (simp add: rr_quota_def)
  qed
  with ret show ?thesis by blast
qed

lemma rr_run_quota:
  assumes inv: "rr_inv reg s" and clock: "clock_inv reg s"
    and ne: "front s \<noteq> length (queue s)" and quota: "rr_quota reg s"
  shows "(total_quanta reg \<le> MAX_PROCESSES \<longrightarrow> (\<exists>s1. rr_run s = Inr s1)) \<and>
         (\<forall>s1. rr_run s = Inr s1 \<longrightarrow> rr_quota reg s1)"
proof -
  let ?t = "current_time s"
  define idx where "idx = queue s ! front s"
  define p where "p = temp s ! nat idx"
  define e where "e = (if remaining_time p > TIME_QUANTUM then TIME_QUANTUM else remaining_time p)"
  define inq0 where "inq0 = (in_queue s)[nat idx := 0]"
  note c = rr_run_clock [OF inv clock ne, folded idx_def, folded p_def, folded e_def]
  from rr_run_unfold [of s] obtain a b where unfold0: "rr_run s =
    (case enqueue_where (ready_after (int32 (current_time s + e)) idx) ((temp s)[nat idx := p\<lparr>start_time := a, response_time := b,
               remaining_time := remaining_time p - e\<rparr>]) 0 (queue s, inq0) of
           Inl f \<Rightarrow> Inl f
         | Inr (q, inq) \<Rightarrow>
             if remaining_time p = e
             then Inr (s\<lparr>temp := (temp s)[nat idx := p\<lparr>start_time := a, response_time := b,
                           remaining_time := 0, completion_time := int32 (current_time s + e),
                           turnaround_time := int32 (int32 (current_time s + e) - arrival_time p),
                           waiting_time := int32 (int32 (int32 (current_time s + e) - arrival_time p) - burst_time p)\<rparr>],
                         current_time := int32 (current_time s + e), completed := completed s + 1,
                         switches := switches s + 1,
                         queue := q, front := front s + 1, in_queue := inq\<rparr>)
             else
               (case enqueue idx (q, inq) of
                  Inl f \<Rightarrow> Inl f
                | Inr (q', inq') \<Rightarrow>
                    Inr (s\<lparr>temp := ((temp s)[nat idx := p\<lparr>start_time := a, response_time := b,
               remaining_time := remaining_time p - e\<rparr>]), current_time := int32 (current_time s + e), switches := switches s + 1,
                           queue := q', front := front s + 1, in_queue := inq'\<rparr>)))"
    unfolding idx_def p_def e_def inq0_def by blast
  note unfold = unfold0 [unfolded c]
  let ?served = "p\<lparr>start_time := a, response_time := b, remaining_time := remaining_time p - e\<rparr>"
  let ?tmp = "(temp s)[nat idx := ?served]"
  let ?sel = "selected (ready_after (?t + e) idx) ?tmp 0 inq0"
  let ?d = "if remaining_time p = e then 0 else (1::nat)"
  note account = rr_run_account [OF inv ne, folded idx_def, folded p_def, folded e_def,
      folded inq0_def]
  from account [where q = ?served and q' = ?served] quota
  have acct: "length (queue s) + length ?sel + ?d +
      sum_list (map (writes_left (?t + e)) ?tmp) = total_quanta reg"
    by (simp add: rr_quota_def)
  show ?thesis
  proof (cases "enqueue_where (ready_after (?t + e) idx) ?tmp 0 (queue s, inq0)")
    case (Inl f)
    with unfold have "rr_run s = Inl f" by simp
    moreover have "\<not> total_quanta reg \<le> MAX_PROCESSES"
    proof
      assume "total_quanta reg \<le> MAX_PROCESSES"
      with acct have "length (queue s) + length ?sel \<le> MAX_PROCESSES" by simp
      from enqueue_where_returns [OF reads_own_flag_conds(3) _ this] Inl show False by auto
    qed
    ultimately show ?thesis by simp
  next
    case (Inr qi)
    obtain q1 inq1 where qi: "qi = (q1, inq1)" by (cases qi)
    with Inr have ew: "enqueue_where (ready_after (?t + e) idx) ?tmp 0 (queue s, inq0) =
        Inr (q1, inq1)"
      by simp
    from enqueue_where_result [OF ew reads_own_flag_conds(3)]
    have q1: "q1 = queue s @ ?sel" by simp
    show ?thesis
    proof (cases "remaining_time p = e")
      case True
      let ?done = "p\<lparr>start_time := a, response_time := b,
                           remaining_time := 0, completion_time := ?t + e,
                           turnaround_time := int32 (?t + e - arrival_time p),
                           waiting_time := int32 (int32 (?t + e - arrival_time p) - burst_time p)\<rparr>"
      from unfold ew True
      have run: "rr_run s = Inr (s\<lparr>temp := (temp s)[nat idx := ?done],
                         current_time := ?t + e, completed := completed s + 1,
                         switches := switches s + 1,
                         queue := q1, front := front s + 1, in_queue := inq1\<rparr>)"
        by simp
      from account [where q = ?done and q' = ?served] True quota
      have "length (queue s) + length ?sel +
          sum_list (map (writes_left (?t + e)) ((temp s)[nat idx := ?done])) = total_quanta reg"
        by (simp add: rr_quota_def)
      with run q1 show ?thesis by (auto simp: rr_quota_def)
    next
      case False
      show ?thesis
      proof (cases "length q1 < MAX_PROCESSES")
        case fits: True
        with unfold ew False
        have run: "rr_run s = Inr (s\<lparr>temp := ?tmp, current_time := ?t + e,
                           switches := switches s + 1,
                           queue := q1 @ [idx], front := front s + 1,
                           in_queue := inq1[nat idx := 1]\<rparr>)"
          by (simp add: enqueue_def)
        with acct False q1 show ?thesis by (auto simp: rr_quota_def)
      next
        case full: False
        with unfold ew False have "rr_run s = Inl Array_Overrun" by (simp add: enqueue_def)
        moreover from acct False q1 full have "\<not> total_quanta reg \<le> MAX_PROCESSES" by simp
        ultimately show ?thesis by simp
      qed
    qed
  qed
qed

lemma rr_body_quota:
  assumes "rr_inv reg s" and "clock_inv reg s" and "completed s < int (length (temp s))"
    and "rr_quota reg s"
  shows "(total_quanta reg \<le> MAX_PROCESSES \<longrightarrow> (\<exists>s1. rr_body s = Inr s1)) \<and>
         (\<forall>s1. rr_body s = Inr s1 \<longrightarrow> rr_quota reg s1)"
proof (cases "front s = length (queue s)")
  case True
  with rr_idle_quota [OF assms(1,2,3) True assms(4)] show ?thesis by (simp add: rr_body_def)
next
  case False
  with rr_run_quota [OF assms(1,2) False assms(4)] show ?thesis by (simp add: rr_body_def)
qed


text \<open>
  An iteration brings the loop of \<^verbatim>\<open>round_robin_scheduling\<close> closer to its exit: a
  dispatch leaves less work, and an idle tick brings the clock closer to the latest arrival.
\<close>

lemma rr_body_less:
  assumes inv: "rr_inv reg s" and clock: "clock_inv reg s"
    and more: "completed s < int (length (temp s))" and body: "rr_body s = Inr s1"
  shows "(s1, s) \<in> inv_image (less_than <*lex*> less_than)
           (\<lambda>s. (work_left (temp s), nat (last_arrival reg - current_time s)))"
proof (cases "front s = length (queue s)")
  case True
  let ?t = "current_time s"
  from True body have idle: "rr_idle s = Inr s1" by (simp add: rr_body_def)
  note c = rr_idle_clock [OF inv clock more True]
  from rr_idle_result [OF idle, unfolded c(1)]
  have s1: "current_time s1 = ?t + 1" "temp s1 = temp s" by auto
  with c(2) show ?thesis by simp
next
  case False
  define idx where "idx = queue s ! front s"
  define p where "p = temp s ! nat idx"
  define e where "e = (if remaining_time p > TIME_QUANTUM then TIME_QUANTUM else remaining_time p)"
  from False body have run: "rr_run s = Inr s1" by (simp add: rr_body_def)
  note st = rr_run_step [OF inv clock False run, folded idx_def, folded p_def, folded e_def]
  from st(2) have rng: "nat idx < length (temp s)" by simp
  from st(3) have e: "0 < e" "e \<le> remaining_time p" by simp_all
  from st(6) obtain q where tmp: "temp s1 = (temp s)[nat idx := q]"
    and q: "remaining_time q = remaining_time p - e"
    by (auto split: if_splits)
  from e q have "0 < remaining_time (temp s ! nat idx)"
    "remaining_time q < remaining_time (temp s ! nat idx)"
    by (simp_all add: p_def)
  from work_left_update [OF rng this] tmp show ?thesis by simp
qed

text \<open>When the loop exits with the account intact, the quanta of the registry have fit.\<close>

lemma rr_quota_exit:
  assumes inv: "rr_inv reg s" and quota: "rr_quota reg s"
    and fin: "\<not> completed s < int (length (temp s))"
  shows "total_quanta reg \<le> MAX_PROCESSES"
proof -
  from inv have si: "sched_inv reg s" and lq: "length (queue s) \<le> MAX_PROCESSES"
    by (simp_all add: rr_inv_def)
  from si fin have "all_done reg (temp s)" by (rule sched_inv_exit)
  then have "\<forall>p \<in> set (temp s). remaining_time p = 0" by (simp add: all_done_def)
  then have "map (writes_left (current_time s)) (temp s) = map (\<lambda>p. 0) (temp s)"
    by (simp add: writes_left_def quanta_simps(1))
  then have "sum_list (map (writes_left (current_time s)) (temp s)) = 0" by simp
  with quota lq show ?thesis by (simp add: rr_quota_def)
qed

text \<open>
  From a state at the head of the loop of \<^verbatim>\<open>round_robin_scheduling\<close>: the loop exits when
  the quanta of the registry fit into \<^verbatim>\<open>queue\<close>, and it writes past \<^verbatim>\<open>queue\<close> when
  they do not.
\<close>

lemma rr_loop_result:
  shows "rr_inv reg s \<Longrightarrow> clock_inv reg s \<Longrightarrow> rr_quota reg s \<Longrightarrow>
    (total_quanta reg \<le> MAX_PROCESSES \<longrightarrow> (\<exists>s'. rr_loop s = Some (Inr s'))) \<and>
    (MAX_PROCESSES < total_quanta reg \<longrightarrow> rr_loop s = Some (Inl Array_Overrun))"
proof (induction s rule: wf_induct_rule
    [OF wf_inv_image [OF wf_lex_prod [OF wf_less_than wf_less_than]],
      of "\<lambda>s. (work_left (temp s), nat (last_arrival reg - current_time s))"])
  case (1 s)
  note inv = \<open>rr_inv reg s\<close> and clock = \<open>clock_inv reg s\<close>
    and quota = \<open>rr_quota reg s\<close>
  show ?case
  proof (cases "completed s < int (length (temp s))")
    case False
    from rr_quota_exit [OF inv quota False] have "total_quanta reg \<le> MAX_PROCESSES" .
    moreover from False have "rr_loop s = Some (Inr s)" by (subst rr_loop.simps) simp
    ultimately show ?thesis by simp
  next
    case True
    note bq = rr_body_quota [OF inv clock True quota]
    show ?thesis
    proof (cases "rr_body s")
      case (Inl f)
      with bq have "\<not> total_quanta reg \<le> MAX_PROCESSES" by auto
      moreover have "f = Array_Overrun" by (cases f)
      moreover from True Inl have "rr_loop s = Some (Inl f)" by (subst rr_loop.simps) simp
      ultimately show ?thesis by simp
    next
      case (Inr s1)
      from bq Inr have "rr_quota reg s1" by blast
      from rr_body_inv [OF inv clock True Inr]
      have "rr_inv reg s1" "clock_inv reg s1" by simp_all
      from "1.IH" [OF rr_body_less [OF inv clock True Inr] this \<open>rr_quota reg s1\<close>]
      have "(total_quanta reg \<le> MAX_PROCESSES \<longrightarrow> (\<exists>s'. rr_loop s1 = Some (Inr s'))) \<and>
        (MAX_PROCESSES < total_quanta reg \<longrightarrow> rr_loop s1 = Some (Inl Array_Overrun))" .
      moreover from True Inr have "rr_loop s = rr_loop s1" by (subst rr_loop.simps) simp
      ultimately show ?thesis by simp
    qed
  qed
qed

lemma rr_init_account:
  assumes reg: "valid_registry reg"
  shows "total_quanta reg =
         sum_list (map (writes_left 0) reg) + length (selected arrived_at_zero reg 0 inq)"
proof -
  have pt: "quanta (burst_time (reg ! i)) =
      writes_left 0 (reg ! i) + (if arrived_at_zero (int i) (reg ! i) inq then 1 else 0)"
    if "i < length reg" for i
  proof -
    from that reg initialised_fields [of "reg ! i"]
    have "remaining_time (reg ! i) = burst_time (reg ! i)" "0 < burst_time (reg ! i)"
      "0 \<le> arrival_time (reg ! i)"
      by (simp_all add: valid_registry_def valid_job_def)
    with quanta_simps(4) [of "burst_time (reg ! i)"] show ?thesis
      by (auto simp: writes_left_def arrived_at_zero_def)
  qed
  from sum_list_pointwise [where ps = reg and qs = reg and f = "\<lambda>p. quanta (burst_time p)"
      and g = "writes_left 0"
      and h = "\<lambda>i. if arrived_at_zero (int i) (reg ! i) inq then 1 else 0", OF refl pt]
  show ?thesis by (simp add: total_quanta_def selected_length length_filter_sum)
qed

text \<open>
  So on a valid registry that fits the clock \<^verbatim>\<open>round_robin_scheduling\<close> returns when the
  quanta of the jobs, in all, are at most 20, and writes past \<^verbatim>\<open>queue\<close> when they are more.
\<close>

lemma round_robin_scheduling_result:
  assumes "valid_registry reg" and "clock_fits reg"
  shows "(total_quanta reg \<le> MAX_PROCESSES \<longrightarrow>
            (\<exists>m out. round_robin_scheduling reg = Some (Inr (m, out)))) \<and>
         (MAX_PROCESSES < total_quanta reg \<longrightarrow>
            round_robin_scheduling reg = Some (Inl Array_Overrun))"
proof -
  let ?inq = "replicate MAX_PROCESSES (0::int)"
  let ?sel = "selected arrived_at_zero reg 0 ?inq"
  from assms have c: "copy_in reg = Inr reg" by (simp add: copy_in_def valid_registry_def)
  note acct = rr_init_account [OF assms(1), of ?inq]
  show ?thesis
  proof (cases "rr_init reg")
    case (Inl f)
    have "f = Array_Overrun" by (cases f)
    with Inl c have r: "round_robin_scheduling reg = Some (Inl Array_Overrun)"
      by (simp add: round_robin_scheduling_def)
    have "\<not> total_quanta reg \<le> MAX_PROCESSES"
    proof
      assume "total_quanta reg \<le> MAX_PROCESSES"
      with acct have "length ([]::int list) + length ?sel \<le> MAX_PROCESSES" by simp
      from enqueue_where_returns [OF reads_own_flag_conds(1) _ this] Inl show False
        by (auto simp: rr_init_def)
    qed
    with r show ?thesis by simp
  next
    case (Inr s0)
    from rr_init_inv [OF assms(1) Inr] have inv: "rr_inv reg s0" .
    from Inr obtain q inq
      where ew: "enqueue_where arrived_at_zero reg 0 ([], ?inq) = Inr (q, inq)"
        and s0: "s0 = \<lparr>temp = reg, current_time = 0, completed = 0, switches = 0,
                     queue = q, front = 0, in_queue = inq\<rparr>"
      by (auto simp: rr_init_def split: sum.splits)
    from enqueue_where_result [OF ew reads_own_flag_conds(1)] have "q = ?sel" by simp
    with acct s0 have quota: "rr_quota reg s0" by (simp add: rr_quota_def)
    from s0 have "clock_inv reg s0" using assms by (intro clock_inv_init) simp_all
    note res = rr_loop_result [OF inv this quota]
    show ?thesis
    proof (cases "total_quanta reg \<le> MAX_PROCESSES")
      case True
      with res obtain s' where "rr_loop s0 = Some (Inr s')" by blast
      with c Inr True show ?thesis by (simp add: round_robin_scheduling_def)
    next
      case False
      with res have "rr_loop s0 = Some (Inl Array_Overrun)" by simp
      with c Inr False show ?thesis by (simp add: round_robin_scheduling_def)
    qed
  qed
qed

lemma emergency_scenario_quanta: "total_quanta init_emergency_scenario = 30"
  by code_simp

end
